theory Spec2Isabelle
  imports Main "HOL-Library.Word"
begin

unbundle bit_operations_syntax

section \<open>Data model (tftp.go, packet.go)\<close>

text \<open>
  Go's \<open>byte\<close> is an 8-bit word, \<open>uint16\<close> a 16-bit word whose arithmetic wraps.
  A \<open>[]byte\<close> and a Go \<open>string\<close> are both byte lists; every slice of the package
  has its capacity equal to its length.
\<close>

type_synonym byte = "8 word"
type_synonym uint16 = "16 word"

abbreviation (input) NUL :: byte where "NUL \<equiv> 0"
abbreviation (input) LF :: byte where "LF \<equiv> 10"
abbreviation (input) CR :: byte where "CR \<equiv> 13"

definition bytes_of :: "string \<Rightarrow> byte list" where
  "bytes_of s = map of_char s"

text \<open>\<open>type Opcode uint16\<close> and its constants.\<close>

type_synonym Opcode = uint16

abbreviation (input) OpcodeRead :: Opcode where "OpcodeRead \<equiv> 1"
abbreviation (input) OpcodeWrite :: Opcode where "OpcodeWrite \<equiv> 2"
abbreviation (input) opcodeDATA :: Opcode where "opcodeDATA \<equiv> 3"
abbreviation (input) opcodeACK :: Opcode where "opcodeACK \<equiv> 4"
abbreviation (input) OpcodeError :: Opcode where "OpcodeError \<equiv> 5"

text \<open>\<open>type Mode string\<close> and its constants.\<close>

type_synonym Mode = "byte list"

definition ModeNetASCII :: Mode where
  "ModeNetASCII = bytes_of ''netascii''"

definition ModeOctet :: Mode where
  "ModeOctet = bytes_of ''octet''"

text \<open>\<open>type ErrorCode uint16\<close> and its constants.\<close>

type_synonym ErrorCode = uint16

abbreviation (input) ErrorCodeUndefined :: ErrorCode where "ErrorCodeUndefined \<equiv> 0"
abbreviation (input) ErrorCodeFileNotFound :: ErrorCode where "ErrorCodeFileNotFound \<equiv> 1"
abbreviation (input) ErrorCodeAccessViolation :: ErrorCode where "ErrorCodeAccessViolation \<equiv> 2"
abbreviation (input) ErrorCodeDiskFull :: ErrorCode where "ErrorCodeDiskFull \<equiv> 3"
abbreviation (input) ErrorCodeIllegalOperation :: ErrorCode where "ErrorCodeIllegalOperation \<equiv> 4"
abbreviation (input) ErrorCodeUnknownTransferID :: ErrorCode where "ErrorCodeUnknownTransferID \<equiv> 5"
abbreviation (input) ErrorCodeFileExists :: ErrorCode where "ErrorCodeFileExists \<equiv> 6"
abbreviation (input) ErrorCodeNoSuchUser :: ErrorCode where "ErrorCodeNoSuchUser \<equiv> 7"

record ErrorPacket =
  ep_Opcode :: Opcode
  ErrorCode :: ErrorCode
  ErrorMsg :: "byte list"

record requestPacket =
  rp_Opcode :: Opcode
  Filename :: "byte list"
  Mode :: Mode

record ackPacket =
  ack_Opcode :: Opcode
  Block :: uint16

text \<open>
  The values of Go's \<open>error\<close> interface that the package produces or inspects: its three
  sentinel errors, a peer's ERROR packet (\<open>*ErrorPacket\<close> implements \<open>error\<close>),
  \<open>io.ErrShortWrite\<close>, \<open>io.EOF\<close>, a \<open>*net.OpError\<close> with the answer of its
  \<open>Timeout()\<close> method, and any other error of the transport. \<open>RuntimePanic\<close> stands
  for a Go run-time panic (index or slice bounds out of range), so that the model is total.
\<close>

datatype error =
    errInvalidRequestPacket
  | errInvalidACKPacket
  | errInvalidERRORPacket
  | ErrorPacketError ErrorPacket
  | ErrShortWrite
  | EOF
  | OpError bool nat
  | OtherError nat
  | RuntimePanic

section \<open>Packet codec (packet.go)\<close>

text \<open>
  Go's slice expression \<open>b[lo:hi]\<close> and index expression \<open>b[i]\<close> over \<open>int\<close>
  operands: \<open>None\<close> is the run-time panic of an operand out of range.
\<close>

definition slice :: "'a list \<Rightarrow> int \<Rightarrow> int \<Rightarrow> 'a list option" where
  "slice b lo hi =
     (if 0 \<le> lo \<and> lo \<le> hi \<and> hi \<le> int (length b)
      then Some (take (nat (hi - lo)) (drop (nat lo) b)) else None)"

definition slice_from :: "'a list \<Rightarrow> int \<Rightarrow> 'a list option" where
  "slice_from b lo = slice b lo (int (length b))"

definition index :: "'a list \<Rightarrow> int \<Rightarrow> 'a option" where
  "index b i = (if 0 \<le> i \<and> i < int (length b) then Some (b ! nat i) else None)"

text \<open>\<open>bytes.IndexByte(b, c)\<close>: the index of the first \<open>c\<close> in \<open>b\<close>, or -1.\<close>

fun IndexByte :: "byte list \<Rightarrow> byte \<Rightarrow> int" where
  "IndexByte [] c = -1"
| "IndexByte (x # xs) c =
     (if x = c then 0 else (let i = IndexByte xs c in if i = -1 then -1 else i + 1))"

text \<open>
  \<open>binary.BigEndian.Uint16(b)\<close> is \<open>uint16(b[1]) | uint16(b[0])<<8\<close>, and panics on
  fewer than two bytes.
\<close>

definition Uint16 :: "byte list \<Rightarrow> uint16 option" where
  "Uint16 b =
     (if length b < 2 then None
      else Some (ucast (b ! 1) OR push_bit 8 (ucast (b ! 0))))"

text \<open>
  \<open>strings.ToLower\<close> belongs to Go's library: on a string of ASCII bytes it maps
  \<open>'A'..'Z'\<close> to \<open>'a'..'z'\<close> (\<open>ToLower_ascii\<close> below), on any other string it decodes
  UTF-8 and maps every rune by \<open>unicode.ToLower\<close>. \<open>parseRequestPacket\<close> takes the
  lowering function as its first argument, so what is proved of it holds for Go's.
\<close>

definition ascii_lower :: "byte \<Rightarrow> byte" where
  "ascii_lower c = (if 65 \<le> c \<and> c \<le> 90 then c + 32 else c)"

definition ToLower_ascii :: "byte list \<Rightarrow> byte list" where
  "ToLower_ascii s = map ascii_lower s"

definition parseRequestPacket ::
    "(byte list \<Rightarrow> byte list) \<Rightarrow> byte list \<Rightarrow> error + requestPacket" where
  "parseRequestPacket ToLower b =
     (if int (length b) < 4 then Inl errInvalidRequestPacket
      else case Option.bind (slice b 0 2) Uint16 of
        None \<Rightarrow> Inl RuntimePanic
      | Some opcode \<Rightarrow>
      if opcode \<noteq> OpcodeRead \<and> opcode \<noteq> OpcodeWrite then Inl errInvalidRequestPacket
      else case slice_from b 2 of
        None \<Rightarrow> Inl RuntimePanic
      | Some b2 \<Rightarrow>
      let idx = IndexByte b2 NUL in
      if idx = -1 then Inl errInvalidRequestPacket
      else case slice b 2 (idx + 2) of
        None \<Rightarrow> Inl RuntimePanic
      | Some filename \<Rightarrow>
      let offset = idx + 3 in
      case slice_from b offset of
        None \<Rightarrow> Inl RuntimePanic
      | Some bo \<Rightarrow>
      let idx = IndexByte bo NUL in
      if idx = -1 then Inl errInvalidRequestPacket
      else case slice b offset (offset + idx) of
        None \<Rightarrow> Inl RuntimePanic
      | Some m \<Rightarrow>
      let mode = ToLower m in
      if mode \<noteq> ModeNetASCII \<and> mode \<noteq> ModeOctet then Inl errInvalidRequestPacket
      else case index b (int (length b) - 1) of
        None \<Rightarrow> Inl RuntimePanic
      | Some final \<Rightarrow>
      if final \<noteq> NUL then Inl errInvalidRequestPacket
      else Inr \<lparr>rp_Opcode = opcode, Filename = filename, Mode = mode\<rparr>)"

text \<open>
  \<open>parseACKPacket\<close> returns \<open>(*ackPacket, error)\<close>: \<open>Inr\<close> is an ACK with a nil error,
  \<open>Inl\<close> is a nil ACK with the error, which for a well-formed ERROR packet is the
  \<open>*ErrorPacket\<close> itself.
\<close>

definition parseACKPacket :: "byte list \<Rightarrow> error + ackPacket" where
  "parseACKPacket b =
     (if int (length b) < 4 then Inl errInvalidACKPacket
      else case Option.bind (slice b 0 2) Uint16 of
        None \<Rightarrow> Inl RuntimePanic
      | Some opcode \<Rightarrow>
      case Option.bind (slice b 2 4) Uint16 of
        None \<Rightarrow> Inl RuntimePanic
      | Some n \<Rightarrow>
      if int (length b) = 4 \<and> opcode = opcodeACK
        then Inr \<lparr>ack_Opcode = opcode, Block = n\<rparr>
      else if opcode \<noteq> OpcodeError then Inl errInvalidERRORPacket
      else if int (length b) < 5 then Inl errInvalidERRORPacket
      else case slice b 4 (int (length b) - 1) of
        None \<Rightarrow> Inl RuntimePanic
      | Some msg \<Rightarrow>
      case index b (int (length b) - 1) of
        None \<Rightarrow> Inl RuntimePanic
      | Some final \<Rightarrow>
      if final \<noteq> NUL then Inl errInvalidERRORPacket
      else Inl (ErrorPacketError
                 \<lparr>ep_Opcode = opcode, ErrorCode = n, ErrorMsg = msg\<rparr>))"

section \<open>NetASCII transcoding (tftp.go, netascii.go)\<close>

text \<open>
  \<open>toNetASCII\<close>: the \<open>for i := 0; i < len(p); i++\<close> loop over \<open>out\<close>, a
  \<open>bytes.Buffer\<close> that starts empty.
\<close>

function toNetASCII_loop :: "byte list \<Rightarrow> nat \<Rightarrow> byte list \<Rightarrow> byte list" where
  "toNetASCII_loop p i out =
     (if i < length p then
        (let out1 = (if p ! i = LF then out @ [CR] else out);
             out2 = out1 @ [p ! i];
             out3 = (if p ! i = CR then out2 @ [NUL] else out2)
         in toNetASCII_loop p (i + 1) out3)
      else out)"
  by pat_completeness auto
termination
  by (relation "measure (\<lambda>(p, i, out). length p - i)") auto

declare toNetASCII_loop.simps [simp del]

definition toNetASCII :: "byte list \<Rightarrow> byte list" where
  "toNetASCII p = toNetASCII_loop p 0 []"

text \<open>
  \<open>fromNetASCII\<close>, the scanning revision that returns \<open>([]byte, error)\<close>. The first
  argument is what is left to read of \<open>in\<close>, the second is \<open>out\<close>. \<open>in.ReadByte()\<close>
  fails with \<open>io.EOF\<close> on an empty buffer and with nothing else. The \<open>switch bb\<close> has
  the two cases \<open>'\n'\<close> and \<open>0\<close> and no default: any other \<open>bb\<close> falls through
  with nothing written.
\<close>

fun fromNetASCII_loop :: "byte list \<Rightarrow> byte list \<Rightarrow> error + byte list" where
  "fromNetASCII_loop [] out = Inr out"
| "fromNetASCII_loop (b # rest) out =
     (if b \<noteq> CR \<or> (b = CR \<and> length rest = 0) then fromNetASCII_loop rest (out @ [b])
      else (case rest of
              [] \<Rightarrow> Inl EOF
            | bb # rest' \<Rightarrow>
                if bb = LF then fromNetASCII_loop rest' (out @ [LF])
                else if bb = NUL then fromNetASCII_loop rest' (out @ [CR])
                else fromNetASCII_loop rest' out))"

definition fromNetASCII :: "byte list \<Rightarrow> error + byte list" where
  "fromNetASCII p = fromNetASCII_loop p []"

text \<open>
  \<open>bytes.Replace(s, old, new, -1)\<close>: every non-overlapping instance of \<open>old\<close>, from the
  left, becomes \<open>new\<close>. The package calls it with non-empty patterns only; on an empty
  pattern (where Go inserts \<open>new\<close> around every rune) this function returns \<open>s\<close>.
\<close>

function Replace :: "byte list \<Rightarrow> byte list \<Rightarrow> byte list \<Rightarrow> byte list" where
  "Replace s old new =
     (if s = [] then []
      else if old \<noteq> [] \<and> take (length old) s = old
        then new @ Replace (drop (length old) s) old new
      else hd s # Replace (tl s) old new)"
  by pat_completeness auto
termination
  by (relation "measure (\<lambda>(s, old, new). length s)") auto

declare Replace.simps [simp del]

text \<open>
  \<open>fromNetASCII\<close>, the revision of src/tftp.go that returns \<open>[]byte\<close> alone: two
  \<open>bytes.Replace\<close> passes over a copy of \<open>p\<close>.
\<close>

definition fromNetASCII_Replace :: "byte list \<Rightarrow> byte list" where
  "fromNetASCII_Replace p =
     (let b = p;
          b = Replace b [CR, LF] [LF];
          b = Replace b [CR, NUL] [CR]
      in b)"

text \<open>
  The conversion inside \<open>netASCIIResponseWriter.Write\<close>: two \<open>bytes.Replace\<close> passes over
  a copy \<open>b\<close> of \<open>p\<close>.
\<close>

definition netASCII_Replace :: "byte list \<Rightarrow> byte list" where
  "netASCII_Replace p =
     (let b = p;
          b = Replace b [CR] [CR, NUL];
          b = Replace b [LF] [CR, LF]
      in b)"

section \<open>Transfer engine (response.go)\<close>

abbreviation (input) blockSize :: nat where "blockSize \<equiv> 512"

text \<open>
  \<open>net.PacketConn\<close> is the world outside the program. A connection is modelled by what it
  will answer, the results of its successive \<open>SetDeadline\<close>, \<open>WriteTo\<close> and
  \<open>ReadFrom\<close> calls in order, and by \<open>sent\<close>, the log of the datagrams handed to
  \<open>WriteTo\<close>. A call that finds no answer left is \<open>Blocked\<close>: the program is still
  waiting there, and the functions below return the state reached so far.
\<close>

datatype write_result = WriteOk int | WriteErr error

datatype read_result = ReadOk "byte list" | ReadErr error

record PacketConn =
  deadlines :: "error option list"
  writes :: "write_result list"
  reads :: "read_result list"
  sent :: "byte list list"

datatype 'a outcome = Returned 'a | Blocked

definition SetDeadline :: "PacketConn \<Rightarrow> PacketConn \<times> error option outcome" where
  "SetDeadline c =
     (case deadlines c of
        [] \<Rightarrow> (c, Blocked)
      | err # ds \<Rightarrow> (c\<lparr>deadlines := ds\<rparr>, Returned err))"

definition WriteTo :: "PacketConn \<Rightarrow> byte list \<Rightarrow> PacketConn \<times> write_result outcome" where
  "WriteTo c b =
     (let c = c\<lparr>sent := sent c @ [b]\<rparr> in
      case writes c of
        [] \<Rightarrow> (c, Blocked)
      | w # ws \<Rightarrow> (c\<lparr>writes := ws\<rparr>, Returned w))"

text \<open>
  \<open>ReadFrom(p)\<close> stores the next datagram in \<open>p\<close>, cut to \<open>len(p)\<close>, and returns the
  number of bytes stored; the second component is \<open>p\<close> afterwards.
\<close>

definition ReadFrom ::
    "PacketConn \<Rightarrow> byte list \<Rightarrow> PacketConn \<times> byte list \<times> (error + nat) outcome" where
  "ReadFrom c p =
     (case reads c of
        [] \<Rightarrow> (c, p, Blocked)
      | ReadErr err # rs \<Rightarrow> (c\<lparr>reads := rs\<rparr>, p, Returned (Inl err))
      | ReadOk d # rs \<Rightarrow>
          (let n = min (length d) (length p)
           in (c\<lparr>reads := rs\<rparr>, take n d @ drop n p, Returned (Inr n))))"

text \<open>\<open>oerr, ok := err.(*net.OpError)\<close> succeeds and \<open>oerr.Timeout()\<close> holds.\<close>

fun is_timeout :: "error \<Rightarrow> bool" where
  "is_timeout (OpError t _) = t"
| "is_timeout _ = False"

text \<open>
  The two revisions of response.go: \<open>bufferedSocketResponseWriter\<close> has the fields of
  the older \<open>response\<close> but \<open>netASCII\<close>, and the same \<open>writeOneBlock\<close> and \<open>Flush\<close>.
  \<open>buf\<close> holds the unread bytes of the \<open>bytes.Buffer\<close>.
\<close>

record bufferedSocketResponseWriter =
  conn :: PacketConn
  remoteAddr :: string
  rb :: "byte list"
  wb :: "byte list"
  buf :: "byte list"
  block :: uint16

record response = bufferedSocketResponseWriter +
  netASCII :: bool

text \<open>
  \<open>newResponse\<close>, given the results of \<open>net.SplitHostPort\<close> and \<open>net.ListenPacket\<close>.
  \<open>block\<close> is not set and has Go's zero value.
\<close>

definition newResponse ::
    "error + string \<Rightarrow> error + PacketConn \<Rightarrow> string \<Rightarrow> Mode \<Rightarrow> error + response" where
  "newResponse split listen addr mode =
     (case split of
        Inl err \<Rightarrow> Inl err
      | Inr host \<Rightarrow>
     (case listen of
        Inl err \<Rightarrow> Inl err
      | Inr c \<Rightarrow>
          Inr \<lparr>conn = c, remoteAddr = addr,
               rb = replicate (blockSize + 4) 0, wb = replicate (blockSize + 4) 0,
               buf = [], block = 0,
               netASCII = (if mode = ModeNetASCII then True else False)\<rparr>))"

text \<open>
  \<open>binary.BigEndian.PutUint16(b, v)\<close> is \<open>b[0] = byte(v >> 8); b[1] = byte(v)\<close>, and
  panics on fewer than two bytes. \<open>copy(dst, src)\<close> returns \<open>dst\<close> afterwards and the
  number of elements copied.
\<close>

definition PutUint16 :: "byte list \<Rightarrow> uint16 \<Rightarrow> byte list option" where
  "PutUint16 b v =
     (if length b < 2 then None
      else Some (b[0 := ucast (drop_bit 8 v), 1 := ucast v]))"

definition copy :: "'a list \<Rightarrow> 'a list \<Rightarrow> 'a list \<times> nat" where
  "copy dst src = (let n = min (length dst) (length src) in (take n src @ drop n dst, n))"

text \<open>The inner \<open>for\<close> of \<open>writeOneBlock\<close>: wait for a datagram, reading again on a timeout.\<close>

function readLoop ::
    "'a bufferedSocketResponseWriter_scheme \<Rightarrow>
     'a bufferedSocketResponseWriter_scheme \<times> (error + nat) outcome" where
  "readLoop r =
     (case ReadFrom (conn r) (rb r) of
        (c, p, Blocked) \<Rightarrow> (r\<lparr>conn := c, rb := p\<rparr>, Blocked)
      | (c, p, Returned (Inl err)) \<Rightarrow>
          if is_timeout err then readLoop (r\<lparr>conn := c, rb := p\<rparr>)
          else (r\<lparr>conn := c, rb := p\<rparr>, Returned (Inl err))
      | (c, p, Returned (Inr rn)) \<Rightarrow> (r\<lparr>conn := c, rb := p\<rparr>, Returned (Inr rn)))"
  by pat_completeness auto
termination
  by (relation "measure (\<lambda>r. length (reads (conn r)))")
    (auto simp: ReadFrom_def Let_def split: list.splits read_result.splits)

declare readLoop.simps [simp del]

lemma readLoop_deadlines:
  "readLoop r = (r', out) \<Longrightarrow> deadlines (conn r') = deadlines (conn r)"
proof (induction r rule: readLoop.induct)
  case (1 r)
  then show ?case
    by (subst (asm) (2) readLoop.simps)
      (auto simp: ReadFrom_def Let_def split: list.splits read_result.splits if_splits)
qed

text \<open>
  The outer \<open>for\<close> of \<open>writeOneBlock\<close>, entered with the DATA packet in \<open>wb[:cn+4]\<close>:
  set the deadline, send, wait for the reply, parse it, and start over on a send timeout
  or on an ACK of the previous block.
\<close>

function sendLoop ::
    "'a bufferedSocketResponseWriter_scheme \<Rightarrow> nat \<Rightarrow>
     'a bufferedSocketResponseWriter_scheme \<times> error option outcome" where
  "sendLoop r cn =
     (case SetDeadline (conn r) of
        (c, Blocked) \<Rightarrow> (r\<lparr>conn := c\<rparr>, Blocked)
      | (c, Returned (Some err)) \<Rightarrow> (r\<lparr>conn := c\<rparr>, Returned (Some err))
      | (c, Returned None) \<Rightarrow>
     (case slice (wb r) 0 (int cn + 4) of
        None \<Rightarrow> (r\<lparr>conn := c\<rparr>, Returned (Some RuntimePanic))
      | Some pkt \<Rightarrow>
     (case WriteTo c pkt of
        (c, Blocked) \<Rightarrow> (r\<lparr>conn := c\<rparr>, Blocked)
      | (c, Returned (WriteErr err)) \<Rightarrow>
          if is_timeout err then sendLoop (r\<lparr>conn := c\<rparr>) cn
          else (r\<lparr>conn := c\<rparr>, Returned (Some err))
      | (c, Returned (WriteOk wn)) \<Rightarrow>
          if wn \<noteq> int cn + 4 then (r\<lparr>conn := c\<rparr>, Returned (Some ErrShortWrite))
          else
     (case readLoop (r\<lparr>conn := c\<rparr>) of
        (r, Blocked) \<Rightarrow> (r, Blocked)
      | (r, Returned (Inl err)) \<Rightarrow> (r, Returned (Some err))
      | (r, Returned (Inr readN)) \<Rightarrow>
     (case parseACKPacket (take readN (rb r)) of
        Inl err \<Rightarrow> (r, Returned (Some err))
      | Inr ack \<Rightarrow>
          if Block ack = block r - 1 then sendLoop r cn
          else (r, Returned None))))))"
  by pat_completeness auto
termination
proof (relation "measure (\<lambda>(r, cn). length (deadlines (conn r)))", goal_cases)
  case 1
  show ?case by simp
next
  case (2 r cn c y x1 pkt c' y' w wn r' y'' x readN ack)
  from \<open>(r', y'') = readLoop (r\<lparr>conn := c'\<rparr>)\<close>
  have "deadlines (conn r') = deadlines c'"
    using readLoop_deadlines [of "r\<lparr>conn := c'\<rparr>" r' y''] by simp
  with 2 show ?case
    by (auto simp: SetDeadline_def WriteTo_def Let_def split: list.splits)
next
  case 3
  then show ?case
    by (auto simp: SetDeadline_def WriteTo_def Let_def split: list.splits)
qed

declare sendLoop.simps [simp del]

text \<open>
  \<open>writeOneBlock\<close>: increment \<open>block\<close>, write the header into \<open>wb[0:2]\<close> and
  \<open>wb[2:4]\<close>, copy \<open>buf.Next(blockSize)\<close> into \<open>wb[4:]\<close>, then loop.
\<close>

definition writeOneBlock ::
    "'a bufferedSocketResponseWriter_scheme \<Rightarrow>
     'a bufferedSocketResponseWriter_scheme \<times> error option outcome" where
  "writeOneBlock r =
     (let r = r\<lparr>block := block r + 1\<rparr> in
      case Option.bind (slice (wb r) 0 2) (\<lambda>s. PutUint16 s opcodeDATA) of
        None \<Rightarrow> (r, Returned (Some RuntimePanic))
      | Some h \<Rightarrow>
      let r = r\<lparr>wb := h @ drop 2 (wb r)\<rparr> in
      case Option.bind (slice (wb r) 2 4) (\<lambda>s. PutUint16 s (block r)) of
        None \<Rightarrow> (r, Returned (Some RuntimePanic))
      | Some h \<Rightarrow>
      let r = r\<lparr>wb := take 2 (wb r) @ h @ drop 4 (wb r)\<rparr> in
      case slice_from (wb r) 4 of
        None \<Rightarrow> (r, Returned (Some RuntimePanic))
      | Some dst \<Rightarrow>
      let src = take blockSize (buf r);
          r = r\<lparr>buf := drop blockSize (buf r)\<rparr>;
          (dst, cn) = copy dst src;
          r = r\<lparr>wb := take 4 (wb r) @ dst\<rparr>
      in sendLoop r cn)"

definition Flush ::
    "'a bufferedSocketResponseWriter_scheme \<Rightarrow>
     'a bufferedSocketResponseWriter_scheme \<times> error option outcome" where
  "Flush r = writeOneBlock r"

text \<open>
  The loop \<open>for i := 0; i < available; i++\<close> of \<open>Write\<close>; \<open>n\<close> is the count that
  \<open>Write\<close> returns.
\<close>

function writeLoop ::
    "'a bufferedSocketResponseWriter_scheme \<Rightarrow> nat \<Rightarrow> nat \<Rightarrow> int \<Rightarrow>
     'a bufferedSocketResponseWriter_scheme \<times> (int \<times> error option) outcome" where
  "writeLoop r i available n =
     (if i < available then
        (case writeOneBlock r of
           (r, Blocked) \<Rightarrow> (r, Blocked)
         | (r, Returned (Some err)) \<Rightarrow> (r, Returned (n, Some err))
         | (r, Returned None) \<Rightarrow> writeLoop r (i + 1) available n)
      else (r, Returned (n, None)))"
  by pat_completeness auto
termination
  by (relation "measure (\<lambda>(r, i, available, n). available - i)") auto

declare writeLoop.simps [simp del]

text \<open>
  \<open>response.Write\<close> of the older revision. \<open>available\<close> is
  \<open>int(math.Floor(float64(r.buf.Len()) / float64(blockSize)))\<close>, which is the integer
  quotient for every length below \<open>2 ^ 53\<close>.
\<close>

definition Write :: "response \<Rightarrow> byte list \<Rightarrow> response \<times> (int \<times> error option) outcome" where
  "Write r p =
     (let pl = int (length p);
          p = (if netASCII r then toNetASCII p else p);
          r = r\<lparr>buf := buf r @ p\<rparr>
      in if length (buf r) < blockSize then (r, Returned (pl, None))
         else (let available = length (buf r) div blockSize
               in writeLoop r 0 available pl))"

text \<open>\<open>bufferedSocketResponseWriter.Write\<close> of the newer revision.\<close>

definition bufferedSocketResponseWriter_Write ::
    "'a bufferedSocketResponseWriter_scheme \<Rightarrow> byte list \<Rightarrow>
     'a bufferedSocketResponseWriter_scheme \<times> (int \<times> error option) outcome" where
  "bufferedSocketResponseWriter_Write w p =
     (let n = int (length p);
          w = w\<lparr>buf := buf w @ p\<rparr>
      in if length (buf w) < blockSize then (w, Returned (n, None))
         else (let available = length (buf w) div blockSize
               in writeLoop w 0 available n))"

text \<open>
  \<open>netASCIIResponseWriter.Write\<close> of the newer revision, over the \<open>Write\<close> of the
  embedded \<open>ResponseWriter\<close>, whose state is \<open>w\<close>.
\<close>

definition netASCIIResponseWriter_Write ::
    "('w \<Rightarrow> byte list \<Rightarrow> 'w \<times> (int \<times> error option) outcome) \<Rightarrow>
     'w \<Rightarrow> byte list \<Rightarrow> 'w \<times> (int \<times> error option) outcome" where
  "netASCIIResponseWriter_Write embedded w p =
     (case embedded w (netASCII_Replace p) of
        (w, Blocked) \<Rightarrow> (w, Blocked)
      | (w, Returned (_, err)) \<Rightarrow> (w, Returned (int (length p), err)))"

text \<open>\<open>captureResponseWriter.Write\<close> of netascii_test.go: \<open>buf.Write(p)\<close>.\<close>

definition captureResponseWriter_Write ::
    "byte list \<Rightarrow> byte list \<Rightarrow> byte list \<times> (int \<times> error option) outcome" where
  "captureResponseWriter_Write w p = (w @ p, Returned (int (length p), None))"

section \<open>The specification's notions\<close>

text \<open>
  The big-endian 16-bit value of two bytes, as a number: \<open>256 * hi + lo\<close>.
\<close>

definition be16 :: "byte \<Rightarrow> byte \<Rightarrow> uint16" where
  "be16 hi lo = word_of_nat (256 * unat hi + unat lo)"

text \<open>
  The request frame \<open>opcode(2) | filename | NUL | mode-text | NUL\<close>: the filename is
  what stands between index 2 and the first NUL from there, the mode token is what stands
  between that NUL and the next one.
\<close>

definition request_filename :: "byte list \<Rightarrow> byte list" where
  "request_filename b = takeWhile (\<lambda>x. x \<noteq> NUL) (drop 2 b)"

definition request_mode_token :: "byte list \<Rightarrow> byte list" where
  "request_mode_token b =
     takeWhile (\<lambda>x. x \<noteq> NUL) (drop (length (request_filename b) + 3) b)"

text \<open>
  The six rules of \<open>ParseRequest\<close>: minimum length 4; opcode Read or Write; a NUL at or
  after index 2; a second NUL after the filename's; the lowercased mode token is
  \<open>netascii\<close> or \<open>octet\<close>; the final byte is NUL.
\<close>

definition valid_request :: "(byte list \<Rightarrow> byte list) \<Rightarrow> byte list \<Rightarrow> bool" where
  "valid_request ToLower b \<longleftrightarrow>
     4 \<le> length b \<and>
     (be16 (b ! 0) (b ! 1) = OpcodeRead \<or> be16 (b ! 0) (b ! 1) = OpcodeWrite) \<and>
     NUL \<in> set (drop 2 b) \<and>
     NUL \<in> set (drop (length (request_filename b) + 3) b) \<and>
     (ToLower (request_mode_token b) = ModeNetASCII \<or>
      ToLower (request_mode_token b) = ModeOctet) \<and>
     last b = NUL"

text \<open>
  What the specification says of \<open>Encode\<close>: a CR before every LF, a NUL after every CR of
  the input, every other byte unchanged.
\<close>

definition encode_byte :: "byte \<Rightarrow> byte list" where
  "encode_byte b = (if b = LF then [CR, LF] else if b = CR then [CR, NUL] else [b])"

definition Encode_spec :: "byte list \<Rightarrow> byte list" where
  "Encode_spec p = concat (map encode_byte p)"

text \<open>
  The DATA frame \<open>opcode(2)=3 | block(2) | payload\<close>, the block number big-endian.
\<close>

definition DATA :: "uint16 \<Rightarrow> byte list \<Rightarrow> byte list" where
  "DATA n payload =
     [0, 3, word_of_nat (unat n div 256), word_of_nat (unat n mod 256)] @ payload"

text \<open>
  \<open>transmitted r r' pkt n\<close>: from \<open>r\<close> to \<open>r'\<close> the session has handed \<open>pkt\<close> to
  \<open>WriteTo\<close> \<open>n\<close> times and nothing else, and has changed nothing of itself but the
  contents of its read buffer.
\<close>

definition transmitted ::
    "'a bufferedSocketResponseWriter_scheme \<Rightarrow> 'a bufferedSocketResponseWriter_scheme \<Rightarrow>
     byte list \<Rightarrow> nat \<Rightarrow> bool" where
  "transmitted r r' pkt n \<longleftrightarrow>
     r' = r\<lparr>conn := conn r', rb := rb r'\<rparr> \<and> length (rb r') = length (rb r) \<and>
     sent (conn r') = sent (conn r) @ replicate n pkt"

text \<open>
  The session after one pass of the loop of \<open>writeOneBlock\<close> in which \<open>pkt\<close> was sent
  and the datagram \<open>d\<close> was received: \<open>ds\<close>, \<open>ws\<close> and \<open>rs\<close> are the answers the
  connection has left.
\<close>

definition received ::
    "'a bufferedSocketResponseWriter_scheme \<Rightarrow> error option list \<Rightarrow> write_result list \<Rightarrow>
     read_result list \<Rightarrow> byte list \<Rightarrow> byte list \<Rightarrow> 'a bufferedSocketResponseWriter_scheme" where
  "received r ds ws rs pkt d =
     r\<lparr>conn := \<lparr>deadlines = ds, writes = ws, reads = rs, sent = sent (conn r) @ [pkt]\<rparr>,
       rb := take (length (rb r)) d @ drop (length d) (rb r)\<rparr>"


text \<open>
  The log of a run that sends the successive blocks of \<open>B\<close>, numbered from \<open>b + 1\<close>:
  the block of index \<open>i\<close> has the number \<open>b + 1 + i\<close> (in 16-bit arithmetic) and the
  payload \<open>B[512 i : 512 i + 512]\<close>, and is handed to the connection \<open>ns ! i\<close> times.
\<close>

definition blocks_log :: "uint16 \<Rightarrow> byte list \<Rightarrow> nat list \<Rightarrow> byte list list" where
  "blocks_log b B ns =
     concat (map (\<lambda>i. replicate (ns ! i)
                         (DATA (b + 1 + word_of_nat i) (take blockSize (drop (blockSize * i) B))))
                 [0..<length ns])"

text \<open>
  What the specification says of \<open>Write\<close>: send so many blocks in order by
  send-one-block, and stop at the first step that does not return nil.
\<close>

fun send_blocks ::
    "nat \<Rightarrow> 'a bufferedSocketResponseWriter_scheme \<Rightarrow>
     'a bufferedSocketResponseWriter_scheme \<times> error option outcome" where
  "send_blocks 0 r = (r, Returned None)"
| "send_blocks (Suc k) r =
     (case writeOneBlock r of
        (r', Returned None) \<Rightarrow> send_blocks k r'
      | (r', out) \<Rightarrow> (r', out))"

text \<open>\<open>with_count n\<close> pairs the error of a returned step with the count \<open>n\<close>.\<close>

definition with_count ::
    "int \<Rightarrow> 'w \<times> error option outcome \<Rightarrow> 'w \<times> (int \<times> error option) outcome" where
  "with_count n res =
     (case res of
        (r', Blocked) \<Rightarrow> (r', Blocked)
      | (r', Returned err) \<Rightarrow> (r', Returned (n, err)))"

text \<open>
  \<open>sent_blocks r r' ns\<close>: from \<open>r\<close> to \<open>r'\<close> the session has sent the first
  \<open>length ns\<close> blocks of its buffer, advanced its block counter by as many and taken
  them off the buffer.
\<close>

definition sent_blocks ::
    "'a bufferedSocketResponseWriter_scheme \<Rightarrow> 'a bufferedSocketResponseWriter_scheme \<Rightarrow>
     nat list \<Rightarrow> bool" where
  "sent_blocks r r' ns \<longleftrightarrow>
     sent (conn r') = sent (conn r) @ blocks_log (block r) (buf r) ns \<and>
     block r' = block r + word_of_nat (length ns) \<and>
     buf r' = drop (blockSize * length ns) (buf r) \<and>
     length (wb r') = length (wb r) \<and>
     bufferedSocketResponseWriter.more r' = bufferedSocketResponseWriter.more r"

text \<open>
  The contract of \<open>Write\<close> for a result \<open>res\<close>, where \<open>B\<close> is the buffer after the
  (transcoded) input is appended and \<open>pl\<close> the length of the input: a returned count is
  \<open>pl\<close>; fewer than 512 buffered bytes leave everything but the buffer as it was, the
  connection too, and return nil; otherwise at least one and at most
  \<open>length B div 512\<close> blocks are sent, in order, each of 512 payload bytes, every one
  before the last at least once, and all of them, at least once each, when nil is
  returned.
\<close>

definition Write_post ::
    "'a bufferedSocketResponseWriter_scheme \<Rightarrow> byte list \<Rightarrow> nat \<Rightarrow>
     'a bufferedSocketResponseWriter_scheme \<times> (int \<times> error option) outcome \<Rightarrow> bool" where
  "Write_post r B pl res \<longleftrightarrow>
     (case res of (r', out) \<Rightarrow>
        (case out of Blocked \<Rightarrow> True | Returned (n, err) \<Rightarrow> n = int pl) \<and>
        (if length B < blockSize
         then r' = r\<lparr>buf := B\<rparr> \<and> out = Returned (int pl, None)
         else \<exists>ns. 1 \<le> length ns \<and> length ns \<le> length B div blockSize \<and>
                sent (conn r') = sent (conn r) @ blocks_log (block r) B ns \<and>
                block r' = block r + word_of_nat (length ns) \<and>
                buf r' = drop (blockSize * length ns) B \<and>
                (\<forall>i<length ns. length (take blockSize (drop (blockSize * i) B)) = blockSize) \<and>
                (\<forall>n\<in>set (butlast ns). 1 \<le> n) \<and>
                (out = Returned (int pl, None) \<longrightarrow>
                   length ns = length B div blockSize \<and> (\<forall>n\<in>set ns. 1 \<le> n))))"

text \<open>
  The session that \<open>newResponse\<close> makes in octet mode on the connection \<open>c\<close>; a
  connection that accepts three deadlines and three sends and acknowledges the blocks 1, 2
  and 3; one that accepts one deadline and one send of four bytes and acknowledges
  block 1; and one whose first \<open>SetDeadline\<close> returns an error.
\<close>

definition octet_session :: "PacketConn \<Rightarrow> response" where
  "octet_session c =
     \<lparr>conn = c, remoteAddr = ''peer'',
      rb = replicate (blockSize + 4) 0, wb = replicate (blockSize + 4) 0,
      buf = [], block = 0, netASCII = False\<rparr>"

definition acking_conn :: PacketConn where
  "acking_conn =
     \<lparr>deadlines = [None, None, None],
      writes = [WriteOk 516, WriteOk 516, WriteOk 4],
      reads = [ReadOk [0, 4, 0, 1], ReadOk [0, 4, 0, 2], ReadOk [0, 4, 0, 3]],
      sent = []\<rparr>"

definition empty_flush_conn :: PacketConn where
  "empty_flush_conn =
     \<lparr>deadlines = [None], writes = [WriteOk 4], reads = [ReadOk [0, 4, 0, 1]], sent = []\<rparr>"

definition refusing_conn :: PacketConn where
  "refusing_conn =
     \<lparr>deadlines = [Some (OtherError 0)], writes = [WriteOk 7], reads = [ReadOk [0, 4, 0, 1]],
      sent = []\<rparr>"

section \<open>Properties of the packet codec\<close>

lemma be16_eq: "(ucast (lo::8 word) OR push_bit 8 (ucast (hi::8 word)) :: 16 word) = be16 hi lo"
proof -
  have "(ucast lo OR push_bit 8 (ucast hi) :: 16 word) = word_cat hi lo"
    using word_cat_eq_push_bit_or [of hi lo, where ?'c = 16] by (simp add: or.commute)
  also have "\<dots> = push_bit 8 (ucast hi) + ucast lo"
    by (simp add: word_cat_eq)
  also have "\<dots> = be16 hi lo"
    by (simp add: be16_def push_bit_eq_mult)
  finally show ?thesis .
qed

lemma unat_be16: "unat (be16 hi lo) = 256 * unat hi + unat lo"
proof -
  have "unat hi < 256" "unat lo < 256"
    using unsigned_less [of hi] unsigned_less [of lo] by simp_all
  then have "256 * unat hi + unat lo < 2 ^ 16" by simp
  then show ?thesis
    unfolding be16_def by (simp only: unat_of_nat) simp
qed

lemma IndexByte_neg: "(IndexByte xs c = -1) = (c \<notin> set xs)"
  and IndexByte_ge: "- 1 \<le> IndexByte xs c"
  by (induction xs) (auto simp: Let_def)

lemma IndexByte_takeWhile:
  "c \<in> set xs \<Longrightarrow> IndexByte xs c = int (length (takeWhile (\<lambda>x. x \<noteq> c) xs))"
  by (induction xs) (auto simp: Let_def IndexByte_neg)

lemma Uint16_take2:
  "2 \<le> length b \<Longrightarrow> Option.bind (slice b 0 2) Uint16 = Some (be16 (b ! 0) (b ! 1))"
  by (simp add: slice_def Uint16_def be16_eq)

lemma Uint16_slice24:
  "4 \<le> length b \<Longrightarrow> Option.bind (slice b 2 4) Uint16 = Some (be16 (b ! 2) (b ! 3))"
  by (simp add: slice_def Uint16_def be16_eq numeral_3_eq_3)

lemma index_last: "b \<noteq> [] \<Longrightarrow> index b (int (length b) - 1) = Some (last b)"
  by (simp add: index_def last_conv_nth nat_diff_distrib')

lemma slice_from_drop: "n \<le> length b \<Longrightarrow> slice_from b (int n) = Some (drop n b)"
  by (simp add: slice_from_def slice_def)

lemma slice_take_drop:
  "lo + n \<le> length b \<Longrightarrow> slice b (int lo) (int lo + int n) = Some (take n (drop lo b))"
  by (simp add: slice_def)

lemma length_takeWhile_less:
  "c \<in> set xs \<Longrightarrow> length (takeWhile (\<lambda>x. x \<noteq> c) xs) < length xs"
  by (induction xs) auto

text \<open>
  C1. For every byte buffer \<open>b\<close>, \<open>parseRequestPacket\<close> yields a request packet if and
  only if the six rules of \<open>valid_request\<close> hold: at least 4 bytes, opcode Read or
  Write, a first NUL at or after index 2 (the filename before it may be empty), a second
  NUL after the filename's, a mode token that lowercased is \<open>netascii\<close> or \<open>octet\<close>,
  and a final NUL byte. The packet then holds the opcode, the filename and the lowercased
  mode. Every other buffer yields the one error \<open>errInvalidRequestPacket\<close>: never another
  error, a panic or a packet.
\<close>

theorem parseRequestPacket_valid:
  "parseRequestPacket ToLower b =
     (if valid_request ToLower b
      then Inr \<lparr>rp_Opcode = be16 (b ! 0) (b ! 1), Filename = request_filename b,
                Mode = ToLower (request_mode_token b)\<rparr>
      else Inl errInvalidRequestPacket)"
proof (cases "4 \<le> length b")
  case False
  then show ?thesis
    by (simp add: parseRequestPacket_def valid_request_def)
next
  case len: True
  let ?fn = "request_filename b"
  let ?n = "length ?fn"
  have op: "Option.bind (slice b 0 2) Uint16 = Some (be16 (b ! 0) (b ! 1))"
    using len by (simp add: Uint16_take2)
  have b2: "slice_from b 2 = Some (drop 2 b)"
    using len slice_from_drop [of 2 b] by simp
  have fin: "index b (int (length b) - 1) = Some (last b)"
    using len by (intro index_last) auto
  show ?thesis
  proof (cases "NUL \<in> set (drop 2 b)")
    case False
    then show ?thesis
      using len by (simp add: parseRequestPacket_def valid_request_def op b2 IndexByte_neg)
  next
    case nul1: True
    have idx1: "IndexByte (drop 2 b) NUL = int ?n"
      using nul1 by (simp add: IndexByte_takeWhile request_filename_def)
    have n_less: "?n < length b - 2"
      using length_takeWhile_less [OF nul1] by (simp add: request_filename_def)
    have fn: "slice b 2 (int ?n + 2) = Some ?fn"
    proof -
      have "slice b (int 2) (int 2 + int ?n) = Some (take ?n (drop 2 b))"
        using n_less by (intro slice_take_drop) simp
      moreover have "take ?n (drop 2 b) = ?fn"
        unfolding request_filename_def by (rule takeWhile_eq_take [symmetric])
      ultimately show ?thesis by (simp add: add.commute)
    qed
    have bo: "slice_from b (int ?n + 3) = Some (drop (?n + 3) b)"
      using n_less slice_from_drop [of "?n + 3" b] by simp
    show ?thesis
    proof (cases "NUL \<in> set (drop (?n + 3) b)")
      case False
      then show ?thesis
        using len nul1
        by (simp add: parseRequestPacket_def valid_request_def op b2 idx1 fn bo
            IndexByte_neg Let_def)
    next
      case nul2: True
      let ?tok = "request_mode_token b"
      let ?m = "length ?tok"
      have idx2: "IndexByte (drop (?n + 3) b) NUL = int ?m"
        using nul2 by (simp add: IndexByte_takeWhile request_mode_token_def)
      have m_less: "?m < length b - (?n + 3)"
        using length_takeWhile_less [OF nul2] by (simp add: request_mode_token_def)
      have tok: "slice b (int ?n + 3) (int ?n + 3 + int ?m) = Some ?tok"
      proof -
        have "slice b (int (?n + 3)) (int (?n + 3) + int ?m) = Some (take ?m (drop (?n + 3) b))"
          using m_less by (intro slice_take_drop) simp
        moreover have "take ?m (drop (?n + 3) b) = ?tok"
          unfolding request_mode_token_def by (rule takeWhile_eq_take [symmetric])
        ultimately show ?thesis by simp
      qed
      show ?thesis
        using len nul1 nul2
        by (simp add: parseRequestPacket_def valid_request_def op b2 idx1 fn bo idx2 tok fin
            Let_def)
    qed
  qed
qed

theorem parseRequestPacket_valid_witness:
  "valid_request ToLower_ascii ([0, 1, 97, 0] @ bytes_of ''NetASCII'' @ [0]) \<and>
   \<not> valid_request ToLower_ascii ([0, 1, 97, 0] @ bytes_of ''octet'') \<and>
   parseRequestPacket ToLower_ascii ([0, 1, 97, 0] @ bytes_of ''NetASCII'' @ [0]) =
     Inr \<lparr>rp_Opcode = OpcodeRead, Filename = [97], Mode = ModeNetASCII\<rparr> \<and>
   parseRequestPacket ToLower_ascii ([0, 1, 97, 0] @ bytes_of ''octet'') =
     Inl errInvalidRequestPacket"
proof -
  have v: "valid_request ToLower_ascii ([0, 1, 97, 0] @ bytes_of ''NetASCII'' @ [0])"
    by (simp add: valid_request_def request_filename_def request_mode_token_def be16_def
        ToLower_ascii_def ascii_lower_def bytes_of_def ModeNetASCII_def)
  have n: "\<not> valid_request ToLower_ascii ([0, 1, 97, 0] @ bytes_of ''octet'')"
    by (simp add: valid_request_def request_filename_def request_mode_token_def be16_def
        ToLower_ascii_def ascii_lower_def bytes_of_def)
  have f: "request_filename ([0, 1, 97, 0] @ bytes_of ''NetASCII'' @ [0]) = [97]"
    by (simp add: request_filename_def)
  have m: "ToLower_ascii (request_mode_token ([0, 1, 97, 0] @ bytes_of ''NetASCII'' @ [0]))
      = ModeNetASCII"
    by (simp add: request_filename_def request_mode_token_def
        ToLower_ascii_def ascii_lower_def bytes_of_def ModeNetASCII_def)
  show ?thesis
    using parseRequestPacket_valid [of ToLower_ascii "[0, 1, 97, 0] @ bytes_of ''NetASCII'' @ [0]"]
      parseRequestPacket_valid [of ToLower_ascii "[0, 1, 97, 0] @ bytes_of ''octet''"]
      v n f m
    by (simp add: be16_def)
qed

text \<open>
  C2. \<open>parseACKPacket\<close>: fewer than 4 bytes is the invalid-ACK error; exactly 4 bytes with
  opcode Ack is an ACK whose block is the big-endian value of bytes 2 and 3; otherwise an
  opcode other than Error is the invalid-ERROR error; an Error opcode with fewer than 5
  bytes or a final byte that is not NUL is the invalid-ERROR error; and an Error opcode
  with at least 5 bytes and a final NUL returns, as the error value, the ErrorPacket whose
  code is the value of bytes 2 and 3 and whose message is \<open>b[4:len(b)-1]\<close>.
\<close>

theorem parseACKPacket_cases:
  "parseACKPacket b =
     (if length b < 4 then Inl errInvalidACKPacket
      else if length b = 4 \<and> be16 (b ! 0) (b ! 1) = opcodeACK
        then Inr \<lparr>ack_Opcode = opcodeACK, Block = be16 (b ! 2) (b ! 3)\<rparr>
      else if be16 (b ! 0) (b ! 1) \<noteq> OpcodeError then Inl errInvalidERRORPacket
      else if length b < 5 \<or> last b \<noteq> NUL then Inl errInvalidERRORPacket
      else Inl (ErrorPacketError
                 \<lparr>ep_Opcode = OpcodeError, ErrorCode = be16 (b ! 2) (b ! 3),
                    ErrorMsg = butlast (drop 4 b)\<rparr>))"
proof (cases "4 \<le> length b")
  case False
  then show ?thesis by (simp add: parseACKPacket_def)
next
  case len: True
  have op: "Option.bind (slice b 0 2) Uint16 = Some (be16 (b ! 0) (b ! 1))"
    using len by (simp add: Uint16_take2)
  have n: "Option.bind (slice b 2 4) Uint16 = Some (be16 (b ! 2) (b ! 3))"
    using len by (simp add: Uint16_slice24)
  have fin: "index b (int (length b) - 1) = Some (last b)"
    using len by (intro index_last) auto
  have msg: "slice b 4 (int (length b) - 1) = Some (butlast (drop 4 b))" if "5 \<le> length b"
    using that by (simp add: slice_def butlast_conv_take nat_diff_distrib')
  show ?thesis
  proof (cases "5 \<le> length b")
    case True
    then show ?thesis
      by (simp add: parseACKPacket_def op n fin msg)
  next
    case False
    with len have "length b = 4" by simp
    then show ?thesis
      by (simp add: parseACKPacket_def op n fin)
  qed
qed

theorem parseACKPacket_cases_witness:
  "parseACKPacket [0, 4, 0, 1] = Inr \<lparr>ack_Opcode = opcodeACK, Block = 1\<rparr> \<and>
   parseACKPacket [0, 5, 0, 1, 0] =
     Inl (ErrorPacketError \<lparr>ep_Opcode = OpcodeError, ErrorCode = ErrorCodeFileNotFound,
                            ErrorMsg = []\<rparr>) \<and>
   parseACKPacket ([0, 5, 0, 3] @ bytes_of ''abc'' @ [0]) =
     Inl (ErrorPacketError \<lparr>ep_Opcode = OpcodeError, ErrorCode = ErrorCodeDiskFull,
                            ErrorMsg = bytes_of ''abc''\<rparr>) \<and>
   parseACKPacket [0, 1, 0, 0] = Inl errInvalidERRORPacket \<and>
   parseACKPacket [0, 5, 0, 0] = Inl errInvalidERRORPacket \<and>
   parseACKPacket [0, 4, 0] = Inl errInvalidACKPacket"
  using parseACKPacket_cases [of "[0, 4, 0, 1]"] parseACKPacket_cases [of "[0, 5, 0, 1, 0]"]
    parseACKPacket_cases [of "[0, 5, 0, 3] @ bytes_of ''abc'' @ [0]"]
    parseACKPacket_cases [of "[0, 1, 0, 0]"] parseACKPacket_cases [of "[0, 5, 0, 0]"]
    parseACKPacket_cases [of "[0, 4, 0]"]
  by (simp add: be16_def bytes_of_def)

section \<open>Properties of the transcoder\<close>

lemma toNetASCII_loop_eq:
  "toNetASCII_loop p i out = out @ Encode_spec (drop i p)"
proof (induction p i out rule: toNetASCII_loop.induct)
  case (1 p i out)
  show ?case
  proof (cases "i < length p")
    case True
    then have d: "drop i p = p ! i # drop (Suc i) p"
      by (simp add: Cons_nth_drop_Suc)
    from True "1.IH" d show ?thesis
      by (subst toNetASCII_loop.simps) (simp add: Encode_spec_def encode_byte_def Let_def)
  next
    case False
    then show ?thesis
      by (subst toNetASCII_loop.simps) (simp add: Encode_spec_def)
  qed
qed

lemma toNetASCII_Encode_spec: "toNetASCII p = Encode_spec p"
  by (simp add: toNetASCII_def toNetASCII_loop_eq)

lemma length_encode_byte: "length (encode_byte b) = 1 + (if b = LF \<or> b = CR then 1 else 0)"
  by (simp add: encode_byte_def)

lemma length_Encode_spec:
  "length (Encode_spec p) = length p + length (filter (\<lambda>b. b = LF \<or> b = CR) p)"
  by (induction p) (simp_all add: Encode_spec_def length_encode_byte)

lemma length_toNetASCII_ge: "length p \<le> length (toNetASCII p)"
  by (simp add: toNetASCII_Encode_spec length_Encode_spec)

text \<open>
  C9. \<open>toNetASCII\<close> is the left-to-right scan of the specification: its output is the
  concatenation, in order, of \<open>CR LF\<close> for every LF of the input, \<open>CR NUL\<close> for every
  CR of the input and the byte itself for every other byte, so the CR put before an LF
  gets no NUL. The output is a value of its own, built from an empty buffer, and the input
  is only read. The output is as long as the input plus its number of LF and CR bytes,
  hence never shorter.
\<close>

theorem toNetASCII_scan:
  "toNetASCII p = Encode_spec p \<and>
   length (toNetASCII p) = length p + length (filter (\<lambda>b. b = LF \<or> b = CR) p) \<and>
   length p \<le> length (toNetASCII p)"
  by (simp add: toNetASCII_Encode_spec length_Encode_spec)

theorem toNetASCII_scan_witness:
  "toNetASCII [97, LF, 98, LF, 99] = [97, CR, LF, 98, CR, LF, 99] \<and>
   toNetASCII [97, CR, 98, CR, 99] = [97, CR, NUL, 98, CR, NUL, 99] \<and>
   toNetASCII [97, CR, 98, LF, 99] = [97, CR, NUL, 98, CR, LF, 99] \<and>
   toNetASCII [] = []"
  using toNetASCII_scan [of "[97, LF, 98, LF, 99]"] toNetASCII_scan [of "[97, CR, 98, CR, 99]"]
    toNetASCII_scan [of "[97, CR, 98, LF, 99]"] toNetASCII_scan [of "[]"]
  by (simp add: Encode_spec_def encode_byte_def)

lemma Replace_single:
  "Replace s [c] new = concat (map (\<lambda>b. if b = c then new else [b]) s)"
proof (induction s)
  case Nil
  show ?case by (subst Replace.simps) simp
next
  case (Cons x xs)
  then show ?case by (subst Replace.simps) (simp add: drop_Suc)
qed

lemma netASCII_Replace_eq: "netASCII_Replace p = Encode_spec p"
  unfolding netASCII_Replace_def Let_def Replace_single Encode_spec_def
  by (induction p) (simp_all add: encode_byte_def)

text \<open>
  C10. The two encoders agree on every input: the two \<open>bytes.Replace\<close> passes of
  \<open>netASCIIResponseWriter.Write\<close> (CR to CR NUL, then LF to CR LF, over a copy of \<open>p\<close>)
  give the bytes that \<open>toNetASCII p\<close> gives, so that writer hands \<open>toNetASCII p\<close> to the
  writer it embeds.
\<close>

theorem netASCII_Replace_toNetASCII:
  "netASCII_Replace p = toNetASCII p \<and>
   netASCIIResponseWriter_Write embedded w p =
     (case embedded w (toNetASCII p) of
        (w', Blocked) \<Rightarrow> (w', Blocked)
      | (w', Returned (n, err)) \<Rightarrow> (w', Returned (int (length p), err)))"
  by (simp add: netASCIIResponseWriter_Write_def netASCII_Replace_eq toNetASCII_Encode_spec)

theorem netASCII_Replace_toNetASCII_witness:
  "netASCII_Replace [97, CR, 98, LF, 99] = [97, CR, NUL, 98, CR, LF, 99] \<and>
   toNetASCII [97, CR, 98, LF, 99] = [97, CR, NUL, 98, CR, LF, 99] \<and>
   netASCIIResponseWriter_Write captureResponseWriter_Write [] [97, CR, 98, LF, 99] =
     ([97, CR, NUL, 98, CR, LF, 99], Returned (5, None))"
  using netASCII_Replace_toNetASCII
    [of "[97, CR, 98, LF, 99]" captureResponseWriter_Write "[]"]
  by (simp add: toNetASCII_Encode_spec Encode_spec_def encode_byte_def
      captureResponseWriter_Write_def)

lemma fromNetASCII_loop_Encode_spec:
  "fromNetASCII_loop (Encode_spec s @ t) out = fromNetASCII_loop t (out @ s)"
proof (induction s arbitrary: out)
  case Nil
  then show ?case by (simp add: Encode_spec_def)
next
  case (Cons b s)
  have e: "Encode_spec (b # s) = encode_byte b @ Encode_spec s"
    by (simp add: Encode_spec_def)
  show ?case using Cons.IH
    by (simp add: e encode_byte_def)
qed

lemma fromNetASCII_toNetASCII: "fromNetASCII (toNetASCII s) = Inr s"
  using fromNetASCII_loop_Encode_spec [of s "[]" "[]"]
  by (simp add: fromNetASCII_def toNetASCII_Encode_spec)

text \<open>
  C5. For every byte sequence \<open>s\<close> without a NUL byte, decoding the encoding of \<open>s\<close>
  succeeds and returns \<open>s\<close>.
\<close>

theorem fromNetASCII_toNetASCII_no_NUL:
  "NUL \<notin> set s \<Longrightarrow> fromNetASCII (toNetASCII s) = Inr s"
  by (rule fromNetASCII_toNetASCII)

theorem fromNetASCII_toNetASCII_no_NUL_witness:
  "NUL \<notin> set [97, CR, 98, LF, 99 :: byte] \<and>
   toNetASCII [97, CR, 98, LF, 99] = [97, CR, NUL, 98, CR, LF, 99] \<and>
   fromNetASCII [97, CR, NUL, 98, CR, LF, 99] = Inr [97, CR, 98, LF, 99]"
proof -
  have h: "NUL \<notin> set [97, CR, 98, LF, 99 :: byte]" by simp
  have e: "toNetASCII [97, CR, 98, LF, 99] = [97, CR, NUL, 98, CR, LF, 99]"
    by (simp add: toNetASCII_Encode_spec Encode_spec_def encode_byte_def)
  show ?thesis
    using fromNetASCII_toNetASCII_no_NUL [OF h] h e by simp
qed

lemma fromNetASCII_loop_total: "\<exists>out'. fromNetASCII_loop p out = Inr out'"
  by (induction p out rule: fromNetASCII_loop.induct) (auto split: list.splits)

lemma fromNetASCII_total: "\<exists>out. fromNetASCII p = Inr out"
  by (simp add: fromNetASCII_def fromNetASCII_loop_total)

text \<open>
  C4. On \<open>a CR b\<close>, a CR followed by a byte that is neither LF nor NUL, the scanning
  \<open>fromNetASCII\<close> returns \<open>a\<close> and a nil error: the \<open>switch\<close> has no default case, so
  the CR and the byte after it are both consumed and nothing is written. The
  \<open>bytes.Replace\<close> revision, which has no error result, returns the input as it is. The
  other four rules of the claim hold (a lone final CR is kept, CR LF gives LF, CR NUL
  gives CR, other bytes are copied).
\<close>

theorem fromNetASCII_CR_other:
  "fromNetASCII [97, CR, 98] = Inr [97] \<and>
   fromNetASCII_Replace [97, CR, 98] = [97, CR, 98] \<and>
   fromNetASCII [97, CR] = Inr [97, CR] \<and>
   fromNetASCII [97, CR, LF, 98] = Inr [97, LF, 98] \<and>
   fromNetASCII [97, CR, NUL, 98] = Inr [97, CR, 98]"
proof -
  have "fromNetASCII_Replace [97, CR, 98] = [97, CR, 98]"
    by code_simp
  then show ?thesis
    by (simp add: fromNetASCII_def)
qed

section \<open>Properties of the transfer engine\<close>

lemma hi_byte: "(ucast (drop_bit 8 (v::16 word)) :: 8 word) = word_of_nat (unat v div 256)"
proof -
  have "unat (drop_bit 8 v) = unat v div 256"
    by (simp add: drop_bit_eq_div unat_div)
  then have "word_of_nat (unat (drop_bit 8 v)) = (word_of_nat (unat v div 256) :: 8 word)"
    by (rule arg_cong)
  then show ?thesis by (simp only: of_nat_unat)
qed

lemma lo_byte: "(ucast (v::16 word) :: 8 word) = word_of_nat (unat v mod 256)"
proof -
  have "unat (ucast v :: 8 word) = unat (word_of_nat (unat v mod 256) :: 8 word)"
    by (simp add: unsigned_ucast_eq take_bit_eq_mod unat_of_nat)
  then show ?thesis by (simp only: word_unat_eq_iff)
qed

lemma PutUint16_pair:
  "PutUint16 [x, y] v = Some [word_of_nat (unat v div 256), word_of_nat (unat v mod 256)]"
  unfolding PutUint16_def by (simp only: hi_byte) (simp add: lo_byte)

lemma readLoop_Nil: "reads (conn r) = [] \<Longrightarrow> readLoop r = (r, Blocked)"
  by (subst readLoop.simps) (simp add: ReadFrom_def)

lemma readLoop_ReadOk:
  "reads (conn r) = ReadOk d # rs \<Longrightarrow>
   readLoop r =
     (r\<lparr>conn := (conn r)\<lparr>reads := rs\<rparr>,
        rb := take (min (length d) (length (rb r))) d @ drop (min (length d) (length (rb r))) (rb r)\<rparr>,
      Returned (Inr (min (length d) (length (rb r)))))"
  by (subst readLoop.simps) (simp add: ReadFrom_def Let_def)

lemma readLoop_ReadErr:
  "reads (conn r) = ReadErr err # rs \<Longrightarrow>
   readLoop r =
     (if is_timeout err then readLoop (r\<lparr>conn := (conn r)\<lparr>reads := rs\<rparr>\<rparr>)
      else (r\<lparr>conn := (conn r)\<lparr>reads := rs\<rparr>\<rparr>, Returned (Inl err)))"
  by (subst readLoop.simps) (simp add: ReadFrom_def Let_def)

lemma readLoop_frame:
  "readLoop r = (r', out) \<Longrightarrow>
     r' = r\<lparr>conn := conn r', rb := rb r'\<rparr> \<and> length (rb r') = length (rb r) \<and>
     sent (conn r') = sent (conn r) \<and> deadlines (conn r') = deadlines (conn r) \<and>
     writes (conn r') = writes (conn r)"
proof (induction "reads (conn r)" arbitrary: r)
  case Nil
  then show ?case by (simp add: readLoop_Nil [OF Nil.hyps [symmetric]])
next
  case (Cons x xs)
  note rd = Cons.hyps(2) [symmetric]
  show ?case
  proof (cases x)
    case (ReadOk d)
    with Cons.prems rd show ?thesis
      by (auto simp: readLoop_ReadOk)
  next
    case (ReadErr err)
    show ?thesis
    proof (cases "is_timeout err")
      case True
      let ?r1 = "r\<lparr>conn := (conn r)\<lparr>reads := xs\<rparr>\<rparr>"
      have "readLoop ?r1 = (r', out)"
        using Cons.prems rd ReadErr True by (simp add: readLoop_ReadErr)
      moreover have "xs = reads (conn ?r1)" by simp
      ultimately have "r' = ?r1\<lparr>conn := conn r', rb := rb r'\<rparr> \<and>
          length (rb r') = length (rb ?r1) \<and>
          sent (conn r') = sent (conn ?r1) \<and> deadlines (conn r') = deadlines (conn ?r1) \<and>
          writes (conn r') = writes (conn ?r1)"
        by (rule Cons.hyps(1) [rotated])
      then show ?thesis by simp
    next
      case False
      with Cons.prems rd ReadErr show ?thesis
        by (auto simp: readLoop_ReadErr)
    qed
  qed
qed

lemma sendLoop_Nil: "deadlines (conn r) = [] \<Longrightarrow> sendLoop r cn = (r, Blocked)"
  by (subst sendLoop.simps) (simp add: SetDeadline_def)

lemma sendLoop_deadline_error:
  "deadlines (conn r) = Some err # ds \<Longrightarrow>
   sendLoop r cn = (r\<lparr>conn := (conn r)\<lparr>deadlines := ds\<rparr>\<rparr>, Returned (Some err))"
  by (subst sendLoop.simps) (simp add: SetDeadline_def)

lemma sendLoop_panic:
  "deadlines (conn r) = None # ds \<Longrightarrow> slice (wb r) 0 (int cn + 4) = None \<Longrightarrow>
   sendLoop r cn = (r\<lparr>conn := (conn r)\<lparr>deadlines := ds\<rparr>\<rparr>, Returned (Some RuntimePanic))"
  by (subst sendLoop.simps) (simp add: SetDeadline_def)

lemma sendLoop_write_Nil:
  "deadlines (conn r) = None # ds \<Longrightarrow> slice (wb r) 0 (int cn + 4) = Some pkt \<Longrightarrow>
   writes (conn r) = [] \<Longrightarrow>
   sendLoop r cn =
     (r\<lparr>conn := (conn r)\<lparr>deadlines := ds, sent := sent (conn r) @ [pkt]\<rparr>\<rparr>, Blocked)"
  by (subst sendLoop.simps) (simp add: SetDeadline_def WriteTo_def)

lemma sendLoop_write_error:
  "deadlines (conn r) = None # ds \<Longrightarrow> slice (wb r) 0 (int cn + 4) = Some pkt \<Longrightarrow>
   writes (conn r) = WriteErr err # ws \<Longrightarrow>
   sendLoop r cn =
     (let r1 = r\<lparr>conn := (conn r)\<lparr>deadlines := ds, sent := sent (conn r) @ [pkt],
                                    writes := ws\<rparr>\<rparr>
      in if is_timeout err then sendLoop r1 cn else (r1, Returned (Some err)))"
  by (subst sendLoop.simps) (simp add: SetDeadline_def WriteTo_def)

lemma sendLoop_write_ok:
  "deadlines (conn r) = None # ds \<Longrightarrow> slice (wb r) 0 (int cn + 4) = Some pkt \<Longrightarrow>
   writes (conn r) = WriteOk wn # ws \<Longrightarrow>
   sendLoop r cn =
     (let r1 = r\<lparr>conn := (conn r)\<lparr>deadlines := ds, sent := sent (conn r) @ [pkt],
                                    writes := ws\<rparr>\<rparr>
      in if wn \<noteq> int cn + 4 then (r1, Returned (Some ErrShortWrite))
         else (case readLoop r1 of
                 (r2, Blocked) \<Rightarrow> (r2, Blocked)
               | (r2, Returned (Inl err)) \<Rightarrow> (r2, Returned (Some err))
               | (r2, Returned (Inr readN)) \<Rightarrow>
                   (case parseACKPacket (take readN (rb r2)) of
                      Inl err \<Rightarrow> (r2, Returned (Some err))
                    | Inr ack \<Rightarrow>
                        if Block ack = block r2 - 1 then sendLoop r2 cn
                        else (r2, Returned None))))"
  by (subst sendLoop.simps) (simp add: SetDeadline_def WriteTo_def)

lemma transmitted_refl: "transmitted r r pkt 0"
  by (simp add: transmitted_def)

lemma transmitted_once:
  "transmitted (r\<lparr>conn := (conn r)\<lparr>deadlines := ds, sent := sent (conn r) @ [pkt], writes := ws\<rparr>\<rparr>) r' pkt n
   \<Longrightarrow> transmitted r r' pkt (Suc n)"
  by (auto simp: transmitted_def)

lemma transmitted_once':
  "transmitted (r\<lparr>conn := (conn r)\<lparr>deadlines := ds, sent := sent (conn r) @ [pkt]\<rparr>\<rparr>) r' pkt n
   \<Longrightarrow> transmitted r r' pkt (Suc n)"
  by (auto simp: transmitted_def)

lemma readLoop_transmitted:
  "readLoop r = (r', out) \<Longrightarrow> transmitted r r' pkt 0"
  by (drule readLoop_frame) (simp add: transmitted_def)

lemma transmitted_trans:
  "transmitted r r1 pkt m \<Longrightarrow> transmitted r1 r2 pkt n \<Longrightarrow> transmitted r r2 pkt (m + n)"
  unfolding transmitted_def
  by (elim conjE, intro conjI) (simp_all add: replicate_add, metis bufferedSocketResponseWriter.surjective bufferedSocketResponseWriter.update_convs(1,3))

lemma transmitted_wb: "transmitted r r' pkt n \<Longrightarrow> wb r' = wb r"
  unfolding transmitted_def
  by (metis bufferedSocketResponseWriter.select_convs(4) bufferedSocketResponseWriter.surjective
      bufferedSocketResponseWriter.update_convs(1,3))

lemma sendLoop_transmitted:
  "sendLoop r cn = (r', out) \<Longrightarrow> slice (wb r) 0 (int cn + 4) = Some pkt \<Longrightarrow>
   \<exists>n. transmitted r r' pkt n \<and>
       ((\<exists>ds. deadlines (conn r) = None # ds) \<longrightarrow> 1 \<le> n) \<and>
       (out = Returned None \<longrightarrow> 1 \<le> n)"
proof (induction "length (deadlines (conn r))" arbitrary: r rule: less_induct)
  case less
  note res = less.prems(1) and pk = less.prems(2)
  show ?case
  proof (cases "deadlines (conn r)")
    case Nil
    with res have "r' = r" "out = Blocked" by (simp_all add: sendLoop_Nil)
    with Nil show ?thesis by (auto intro: transmitted_refl)
  next
    case (Cons x ds)
    show ?thesis
    proof (cases x)
      case (Some err)
      with Cons res have "r' = r\<lparr>conn := (conn r)\<lparr>deadlines := ds\<rparr>\<rparr>" "out = Returned (Some err)"
        by (simp_all add: sendLoop_deadline_error)
      then have "transmitted r r' pkt 0" by (simp add: transmitted_def)
      with Cons Some \<open>out = Returned (Some err)\<close> show ?thesis by auto
    next
      case None
      with Cons have dl: "deadlines (conn r) = None # ds" by simp
      let ?c1 = "(conn r)\<lparr>deadlines := ds, sent := sent (conn r) @ [pkt]\<rparr>"
      have fin: "\<exists>n. transmitted r r' pkt n \<and>
         ((\<exists>ds. deadlines (conn r) = None # ds) \<longrightarrow> 1 \<le> n) \<and>
         (out = Returned None \<longrightarrow> 1 \<le> n)" if "transmitted r r' pkt (Suc n)" for n
        using that by (intro exI [of _ "Suc n"]) simp
      show ?thesis
      proof (cases "writes (conn r)")
        case Nil
        with res dl pk have "r' = r\<lparr>conn := ?c1\<rparr>"
          by (simp add: sendLoop_write_Nil)
        then have "transmitted r r' pkt (Suc 0)" by (simp add: transmitted_def)
        then show ?thesis by (rule fin)
      next
        case (Cons w ws)
        let ?r1 = "r\<lparr>conn := ?c1\<lparr>writes := ws\<rparr>\<rparr>"
        have r1: "transmitted r ?r1 pkt (Suc 0)" by (simp add: transmitted_def)
        have pk1: "slice (wb ?r1) 0 (int cn + 4) = Some pkt" using pk by simp
        have len1: "length (deadlines (conn ?r1)) < length (deadlines (conn r))"
          using dl by simp
        show ?thesis
        proof (cases w)
          case (WriteErr err)
          show ?thesis
          proof (cases "is_timeout err")
            case True
            with res dl pk Cons WriteErr have "sendLoop ?r1 cn = (r', out)"
              by (simp add: sendLoop_write_error)
            from less.hyps [OF len1 this pk1]
            obtain n where "transmitted ?r1 r' pkt n" by blast
            with r1 have "transmitted r r' pkt (Suc 0 + n)" by (rule transmitted_trans)
            then show ?thesis using fin by simp
          next
            case False
            with res dl pk Cons WriteErr have "r' = ?r1"
              by (simp add: sendLoop_write_error)
            with r1 show ?thesis using fin by simp
          qed
        next
          case (WriteOk wn)
          show ?thesis
          proof (cases "wn \<noteq> int cn + 4")
            case True
            with res dl pk Cons WriteOk have "r' = ?r1"
              by (simp add: sendLoop_write_ok)
            with r1 show ?thesis using fin by simp
          next
            case False
            obtain r2 o2 where rl: "readLoop ?r1 = (r2, o2)" by (cases "readLoop ?r1")
            from readLoop_transmitted [OF rl] r1
            have r2: "transmitted r r2 pkt (Suc 0 + 0)" by (rule transmitted_trans [rotated])
            have eq: "sendLoop r cn =
                (case o2 of Blocked \<Rightarrow> (r2, Blocked)
                 | Returned (Inl err) \<Rightarrow> (r2, Returned (Some err))
                 | Returned (Inr readN) \<Rightarrow>
                   (case parseACKPacket (take readN (rb r2)) of
                      Inl err \<Rightarrow> (r2, Returned (Some err))
                    | Inr ack \<Rightarrow>
                        if Block ack = block r2 - 1 then sendLoop r2 cn
                        else (r2, Returned None)))"
              using dl pk Cons WriteOk False rl by (simp add: sendLoop_write_ok)
            have stop: ?thesis if "r' = r2"
              using that r2 fin by simp
            have again: ?thesis if "sendLoop r2 cn = (r', out)"
            proof -
              have "wb r2 = wb r" using r2 by (rule transmitted_wb)
              with pk have pk2: "slice (wb r2) 0 (int cn + 4) = Some pkt" by simp
              have "deadlines (conn r2) = deadlines (conn ?r1)"
                using readLoop_frame [OF rl] by simp
              then have len2: "length (deadlines (conn r2)) < length (deadlines (conn r))"
                using dl by simp
              from less.hyps [OF len2 that pk2]
              obtain n where "transmitted r2 r' pkt n" by blast
              with r2 have "transmitted r r' pkt (Suc 0 + 0 + n)" by (rule transmitted_trans)
              then show ?thesis using fin by simp
            qed
            show ?thesis
            proof (cases o2)
              case Blocked
              with eq res show ?thesis by (intro stop) simp
            next
              case (Returned x)
              show ?thesis
              proof (cases x)
                case (Inl err)
                with Returned eq res show ?thesis by (intro stop) simp
              next
                case (Inr readN)
                show ?thesis
                proof (cases "parseACKPacket (take readN (rb r2))")
                  case (Inl err)
                  with Inr Returned eq res show ?thesis by (intro stop) simp
                next
                  case ack: (Inr ack)
                  show ?thesis
                  proof (cases "Block ack = block r2 - 1")
                    case True
                    with ack Inr Returned eq res show ?thesis by (intro again) simp
                  next
                    case False
                    with ack Inr Returned eq res show ?thesis by (intro stop) simp
                  qed
                qed
              qed
            qed
          qed
        qed
      qed
    qed
  qed
qed

lemma length_ge_4E:
  assumes "4 \<le> length xs"
  obtains a b c d ys where "xs = a # b # c # d # ys"
proof -
  from assms obtain a xs1 where 1: "xs = a # xs1" by (cases xs) auto
  with assms obtain b xs2 where 2: "xs1 = b # xs2" by (cases xs1) auto
  with 1 assms obtain c xs3 where 3: "xs2 = c # xs3" by (cases xs2) auto
  with 1 2 assms obtain d ys where 4: "xs3 = d # ys" by (cases xs3) auto
  from 1 2 3 4 that show thesis by blast
qed

lemma writeOneBlock_sendLoop:
  assumes len: "blockSize + 4 \<le> length (wb r)"
  shows "writeOneBlock r =
     sendLoop
       (r\<lparr>block := block r + 1,
          buf := drop blockSize (buf r),
          wb := DATA (block r + 1) (take blockSize (buf r))
                @ drop (4 + min blockSize (length (buf r))) (wb r)\<rparr>)
       (min blockSize (length (buf r)))"
proof -
  from len have "4 \<le> length (wb r)" by simp
  then obtain a b c d ws where w: "wb r = a # b # c # d # ws"
    by (rule length_ge_4E)
  with len have ws: "blockSize \<le> length ws" by simp
  have h1: "PutUint16 [a, b] opcodeDATA = Some [0, 3]"
    by (simp add: PutUint16_pair)
  have m: "min (length ws) (min (length (buf r)) 512) = min 512 (length (buf r))"
    using ws by simp
  have d4: "drop (4 + k) (a # b # c # d # ws) = drop k ws" for k
    by (simp add: drop_Cons')
  have tm: "take (min (length (buf r)) 512) (buf r) = take 512 (buf r)"
    by (simp add: min_def)
  show ?thesis
    unfolding writeOneBlock_def Let_def
    using ws
    by (simp add: w slice_def slice_from_def h1 PutUint16_pair copy_def DATA_def Let_def m
        min.commute d4 tm)
qed

lemma slice_DATA:
  "slice (DATA n payload @ rest) 0 (int (length payload) + 4) = Some (DATA n payload)"
proof -
  have "nat (int (length payload) + 4) = 4 + length payload" by simp
  then show ?thesis
    by (simp add: slice_def DATA_def take_Cons')
qed

lemma writeOneBlock_transmitted:
  assumes len: "blockSize + 4 \<le> length (wb r)"
    and res: "writeOneBlock r = (r', out)"
  shows "\<exists>n. sent (conn r') = sent (conn r) @ replicate n (DATA (block r + 1) (take blockSize (buf r))) \<and>
       ((\<exists>ds. deadlines (conn r) = None # ds) \<longrightarrow> 1 \<le> n) \<and>
       (out = Returned None \<longrightarrow> 1 \<le> n)"
    and "block r' = block r + 1"
    and "buf r' = drop blockSize (buf r)"
    and "length (wb r') = length (wb r)"
    and "length (rb r') = length (rb r)"
    and "bufferedSocketResponseWriter.more r' = bufferedSocketResponseWriter.more r"
proof -
  let ?pkt = "DATA (block r + 1) (take blockSize (buf r))"
  let ?cn = "min blockSize (length (buf r))"
  let ?r1 = "r\<lparr>block := block r + 1,
          buf := drop blockSize (buf r),
          wb := ?pkt @ drop (4 + ?cn) (wb r)\<rparr>"
  have sl: "sendLoop ?r1 ?cn = (r', out)"
    using res writeOneBlock_sendLoop [OF len] by simp
  have "length (take blockSize (buf r)) = ?cn" by simp
  then have pk: "slice (wb ?r1) 0 (int ?cn + 4) = Some ?pkt"
    using slice_DATA [of "block r + 1" "take blockSize (buf r)" "drop (4 + ?cn) (wb r)"]
    by simp
  from sendLoop_transmitted [OF sl pk]
  obtain n where t: "transmitted ?r1 r' ?pkt n"
    and n1: "(\<exists>ds. deadlines (conn ?r1) = None # ds) \<longrightarrow> 1 \<le> n"
    and n2: "out = Returned None \<longrightarrow> 1 \<le> n"
    by blast
  from t have eq: "r' = ?r1\<lparr>conn := conn r', rb := rb r'\<rparr>"
    and lrb: "length (rb r') = length (rb ?r1)"
    and st: "sent (conn r') = sent (conn ?r1) @ replicate n ?pkt"
    by (simp_all add: transmitted_def)
  from st n1 n2
  show "\<exists>n. sent (conn r') = sent (conn r) @ replicate n ?pkt \<and>
       ((\<exists>ds. deadlines (conn r) = None # ds) \<longrightarrow> 1 \<le> n) \<and>
       (out = Returned None \<longrightarrow> 1 \<le> n)"
    by (intro exI [of _ n]) simp
  show "block r' = block r + 1" by (subst eq) simp
  show "buf r' = drop blockSize (buf r)" by (subst eq) simp
  have "wb r' = ?pkt @ drop (4 + ?cn) (wb r)" by (subst eq) simp
  then show "length (wb r') = length (wb r)"
    using len by (simp add: DATA_def)
  show "length (rb r') = length (rb r)" using lrb by simp
  show "bufferedSocketResponseWriter.more r' = bufferedSocketResponseWriter.more r"
    by (subst eq) simp
qed

lemma readLoop_timeouts:
  "reads (conn r) = map ReadErr touts @ rest \<Longrightarrow> \<forall>e\<in>set touts. is_timeout e \<Longrightarrow>
   readLoop r = readLoop (r\<lparr>conn := (conn r)\<lparr>reads := rest\<rparr>\<rparr>)"
proof (induction touts arbitrary: r)
  case Nil
  then have "rest = reads (conn r)" by simp
  then show ?case by simp
next
  case (Cons e es)
  let ?r1 = "r\<lparr>conn := (conn r)\<lparr>reads := map ReadErr es @ rest\<rparr>\<rparr>"
  have "readLoop r = readLoop ?r1"
    using Cons.prems by (simp add: readLoop_ReadErr)
  also have "\<dots> = readLoop (?r1\<lparr>conn := (conn ?r1)\<lparr>reads := rest\<rparr>\<rparr>)"
    using Cons.prems by (intro Cons.IH) simp_all
  finally show ?case by simp
qed

lemma take_min_length: "take (min (length d) n) d = take n d"
  by (simp add: min_def)

lemma drop_min_length: "drop (min (length d) (length xs)) xs = drop (length d) xs"
  by (simp add: min_def)

lemma sendLoop_received:
  assumes dl: "deadlines (conn r) = None # ds"
    and pk: "slice (wb r) 0 (int cn + 4) = Some pkt"
    and wr: "writes (conn r) = WriteOk (int cn + 4) # ws"
    and rd: "reads (conn r) = map ReadErr touts @ ReadOk d # rs"
    and to: "\<forall>e\<in>set touts. is_timeout e"
  shows "sendLoop r cn =
           (case parseACKPacket (take (length (rb r)) d) of
              Inl err \<Rightarrow> (received r ds ws rs pkt d, Returned (Some err))
            | Inr ack \<Rightarrow>
                if Block ack = block r - 1 then sendLoop (received r ds ws rs pkt d) cn
                else (received r ds ws rs pkt d, Returned None)) \<and>
         slice (wb (received r ds ws rs pkt d)) 0 (int cn + 4) = Some pkt \<and>
         block (received r ds ws rs pkt d) = block r \<and>
         buf (received r ds ws rs pkt d) = buf r"
proof -
  let ?r1 = "r\<lparr>conn := (conn r)\<lparr>deadlines := ds, sent := sent (conn r) @ [pkt],
                                    writes := ws\<rparr>\<rparr>"
  let ?r2 = "received r ds ws rs pkt d"
  have "readLoop ?r1 = readLoop (?r1\<lparr>conn := (conn ?r1)\<lparr>reads := ReadOk d # rs\<rparr>\<rparr>)"
    using rd to by (intro readLoop_timeouts [where touts = touts]) simp_all
  also have "\<dots> = (?r2, Returned (Inr (min (length d) (length (rb r)))))"
    by (subst readLoop_ReadOk [where d = d and rs = rs])
      (simp_all add: received_def take_min_length drop_min_length)
  finally have rl: "readLoop ?r1 = (?r2, Returned (Inr (min (length d) (length (rb r)))))" .
  have rb2: "take (min (length d) (length (rb r))) (rb ?r2) = take (length (rb r)) d"
    by (simp add: received_def min_def)
  have b2: "block ?r2 = block r" by (simp add: received_def)
  have "sendLoop r cn =
           (case parseACKPacket (take (length (rb r)) d) of
              Inl err \<Rightarrow> (?r2, Returned (Some err))
            | Inr ack \<Rightarrow>
                if Block ack = block r - 1 then sendLoop ?r2 cn
                else (?r2, Returned None))"
    by (simp add: sendLoop_write_ok [OF dl pk wr] rl rb2 b2 split: sum.splits)
  then show ?thesis using pk by (simp add: received_def)
qed


lemma parseACKPacket_ACK:
  "parseACKPacket [0, 4, hi, lo] = Inr \<lparr>ack_Opcode = opcodeACK, Block = be16 hi lo\<rparr>"
  by (simp add: parseACKPacket_def slice_def Uint16_def be16_eq [symmetric])


lemma blocks_log_Nil: "blocks_log b B [] = []"
  by (simp add: blocks_log_def)

lemma blocks_log_Cons:
  "blocks_log b B (n # ns) =
     replicate n (DATA (b + 1) (take blockSize B)) @ blocks_log (b + 1) (drop blockSize B) ns"
proof -
  have "[0..<Suc (length ns)] = 0 # [Suc 0..<Suc (length ns)]"
    by (rule upt_conv_Cons) simp
  also have "[Suc 0..<Suc (length ns)] = map Suc [0..<length ns]"
    by (rule map_Suc_upt [symmetric])
  finally have u: "[0..<length (n # ns)] = 0 # map Suc [0..<length ns]"
    by simp
  show ?thesis
    unfolding blocks_log_def u
    by (simp add: comp_def add.commute add.left_commute)
qed

lemma writeLoop_send_blocks:
  "writeLoop r i available n =
     (case send_blocks (available - i) r of
        (r', Blocked) \<Rightarrow> (r', Blocked)
      | (r', Returned err) \<Rightarrow> (r', Returned (n, err)))"
proof (induction r i available n rule: writeLoop.induct)
  case (1 r i available n)
  show ?case
  proof (cases "i < available")
    case False
    then show ?thesis by (subst writeLoop.simps) simp
  next
    case True
    then have s: "available - i = Suc (available - (i + 1))" by simp
    obtain r1 o1 where w: "writeOneBlock r = (r1, o1)" by (cases "writeOneBlock r")
    show ?thesis
    proof (cases o1)
      case Blocked
      with True w show ?thesis
        by (subst writeLoop.simps) (simp add: s)
    next
      case (Returned e)
      show ?thesis
      proof (cases e)
        case None
        with True w Returned "1.IH" [of r1 o1 e] show ?thesis
          by (subst writeLoop.simps) (simp add: s)
      next
        case (Some err)
        with True w Returned show ?thesis
          by (subst writeLoop.simps) (simp add: s)
      qed
    qed
  qed
qed

lemma sent_blocks_none: "sent_blocks r r []"
  by (simp add: sent_blocks_def blocks_log_Nil)

lemma sent_blocks_Cons:
  assumes "sent (conn r1) = sent (conn r) @ replicate n (DATA (block r + 1) (take blockSize (buf r)))"
    and "block r1 = block r + 1" and "buf r1 = drop blockSize (buf r)"
    and "length (wb r1) = length (wb r)"
    and "bufferedSocketResponseWriter.more r1 = bufferedSocketResponseWriter.more r"
    and "sent_blocks r1 r' ns"
  shows "sent_blocks r r' (n # ns)"
  using assms
  by (simp add: sent_blocks_def blocks_log_Cons add.commute add.left_commute)

lemma send_blocks_log:
  assumes "blockSize + 4 \<le> length (wb r)" and "send_blocks k r = (r', out)"
  shows "\<exists>ns. length ns \<le> k \<and> sent_blocks r r' ns \<and>
           (\<forall>n\<in>set (butlast ns). 1 \<le> n) \<and>
           (out = Returned None \<longrightarrow> length ns = k \<and> (\<forall>n\<in>set ns. 1 \<le> n)) \<and>
           (out \<noteq> Returned None \<longrightarrow> 1 \<le> length ns)"
  using assms
proof (induction k arbitrary: r)
  case 0
  then have "r' = r" "out = Returned None" by simp_all
  then show ?case
    by (intro exI [of _ "[]"]) (simp add: sent_blocks_none)
next
  case (Suc k)
  note len = Suc.prems(1)
  obtain r1 o1 where w: "writeOneBlock r = (r1, o1)" by (cases "writeOneBlock r")
  from writeOneBlock_transmitted(1) [OF len w]
  obtain n where st: "sent (conn r1) =
        sent (conn r) @ replicate n (DATA (block r + 1) (take blockSize (buf r)))"
    and n1: "o1 = Returned None \<longrightarrow> 1 \<le> n"
    by blast
  note rest = writeOneBlock_transmitted(2,3,4,6) [OF len w]
  have one: "sent_blocks r r1 [n]"
    using st rest sent_blocks_none [of r1] by (intro sent_blocks_Cons)
  show ?case
  proof (cases "o1 = Returned None")
    case True
    with Suc.prems(2) w have sb: "send_blocks k r1 = (r', out)" by simp
    have len1: "blockSize + 4 \<le> length (wb r1)" using len rest by simp
    from Suc.IH [OF len1 sb]
    obtain ns where ns: "length ns \<le> k" "sent_blocks r1 r' ns"
      "\<forall>n\<in>set (butlast ns). 1 \<le> n"
      "out = Returned None \<longrightarrow> length ns = k \<and> (\<forall>n\<in>set ns. 1 \<le> n)"
      "out \<noteq> Returned None \<longrightarrow> 1 \<le> length ns"
      by blast
    have "sent_blocks r r' (n # ns)"
      using st rest ns(2) by (intro sent_blocks_Cons)
    moreover have "1 \<le> n" using n1 True by simp
    ultimately show ?thesis
      using ns by (intro exI [of _ "n # ns"]) auto
  next
    case False
    with Suc.prems(2) w have "r' = r1" "out = o1"
      by (auto split: outcome.splits option.splits)
    with False one show ?thesis
      by (intro exI [of _ "[n]"]) simp
  qed
qed

lemma writeOneBlock_acked:
  assumes len: "blockSize + 4 \<le> length (wb r)" and lrb: "4 \<le> length (rb r)"
    and dl: "deadlines (conn r) = None # ds"
    and wr: "writes (conn r) = WriteOk (int (min blockSize (length (buf r))) + 4) # ws"
    and rd: "reads (conn r) = ReadOk [0, 4, hi, lo] # rs"
    and ack: "be16 hi lo \<noteq> block r"
  shows "\<exists>r'. writeOneBlock r = (r', Returned None) \<and>
           block r' = block r + 1 \<and> buf r' = drop blockSize (buf r) \<and>
           length (wb r') = length (wb r) \<and> length (rb r') = length (rb r) \<and>
           conn r' = \<lparr>deadlines = ds, writes = ws, reads = rs,
                      sent = sent (conn r) @ [DATA (block r + 1) (take blockSize (buf r))]\<rparr> \<and>
           bufferedSocketResponseWriter.more r' = bufferedSocketResponseWriter.more r"
proof -
  let ?pkt = "DATA (block r + 1) (take blockSize (buf r))"
  let ?cn = "min blockSize (length (buf r))"
  let ?r1 = "r\<lparr>block := block r + 1,
          buf := drop blockSize (buf r),
          wb := ?pkt @ drop (4 + ?cn) (wb r)\<rparr>"
  let ?d = "[0, 4, hi, lo] :: byte list"
  let ?r2 = "received ?r1 ds ws rs ?pkt ?d"
  have "length (take blockSize (buf r)) = ?cn" by simp
  then have pk: "slice (wb ?r1) 0 (int ?cn + 4) = Some ?pkt"
    using slice_DATA [of "block r + 1" "take blockSize (buf r)" "drop (4 + ?cn) (wb r)"]
    by simp
  have dl1: "deadlines (conn ?r1) = None # ds" using dl by simp
  have wr1: "writes (conn ?r1) = WriteOk (int ?cn + 4) # ws" using wr by simp
  have rd1: "reads (conn ?r1) = map ReadErr [] @ ReadOk ?d # rs" using rd by simp
  have tk: "take (length (rb ?r1)) ?d = ?d" using lrb by simp
  have "sendLoop ?r1 ?cn = (?r2, Returned None)"
    using sendLoop_received [OF dl1 pk wr1 rd1] ack
    by (simp only: tk parseACKPacket_ACK) simp
  then have w: "writeOneBlock r = (?r2, Returned None)"
    by (simp only: writeOneBlock_sendLoop [OF len])
  have "length (wb ?r2) = length (wb r)"
    using len by (simp add: received_def DATA_def)
  moreover have "length (rb ?r2) = length (rb r)"
    using lrb by (simp add: received_def)
  ultimately show ?thesis
    using w by (intro exI [of _ ?r2]) (simp add: received_def)
qed

lemma full_block:
  assumes "i < k" and "k \<le> length B div blockSize"
  shows "length (take blockSize (drop (blockSize * i) B)) = blockSize"
proof -
  have "blockSize * Suc i \<le> blockSize * (length B div blockSize)"
    using assms by (intro mult_le_mono2) simp
  also have "\<dots> \<le> length B" by simp
  finally show ?thesis by simp
qed

lemma send_blocks_post:
  assumes len: "blockSize + 4 \<le> length (wb r)"
  shows "Write_post r B pl
     (if length B < blockSize then (r\<lparr>buf := B\<rparr>, Returned (int pl, None))
      else with_count (int pl) (send_blocks (length B div blockSize) (r\<lparr>buf := B\<rparr>)))"
proof (cases "length B < blockSize")
  case True
  then show ?thesis by (simp add: Write_post_def)
next
  case False
  let ?k = "length B div blockSize"
  let ?r1 = "r\<lparr>buf := B\<rparr>"
  from False have k: "1 \<le> ?k" by (simp add: Suc_le_eq div_greater_zero_iff)
  obtain r' out where sb: "send_blocks ?k ?r1 = (r', out)" by (cases "send_blocks ?k ?r1")
  have len1: "blockSize + 4 \<le> length (wb ?r1)" using len by simp
  from send_blocks_log [OF len1 sb]
  obtain ns where ns: "length ns \<le> ?k" "sent_blocks ?r1 r' ns"
    "\<forall>n\<in>set (butlast ns). 1 \<le> n"
    "out = Returned None \<longrightarrow> length ns = ?k \<and> (\<forall>n\<in>set ns. 1 \<le> n)"
    "out \<noteq> Returned None \<longrightarrow> 1 \<le> length ns"
    by blast
  have one: "1 \<le> length ns" using ns(4,5) k by (cases "out = Returned None") simp_all
  have full: "\<forall>i<length ns. length (take blockSize (drop (blockSize * i) B)) = blockSize"
    using full_block [OF _ ns(1)] by blast
  have cnt: "case snd (with_count (int pl) (r', out)) of
      Blocked \<Rightarrow> True | Returned (n, err) \<Rightarrow> n = int pl"
    by (simp add: with_count_def split: outcome.splits)
  have fin: "snd (with_count (int pl) (r', out)) = Returned (int pl, None) \<longrightarrow>
      out = Returned None"
    by (simp add: with_count_def split: outcome.splits)
  have fst: "fst (with_count (int pl) (r', out)) = r'"
    by (simp add: with_count_def split: outcome.splits)
  obtain o' where wc: "with_count (int pl) (r', out) = (r', o')"
    using fst by (cases "with_count (int pl) (r', out)") simp
  from cnt fin wc have cnt': "case o' of Blocked \<Rightarrow> True | Returned (n, err) \<Rightarrow> n = int pl"
    and fin': "o' = Returned (int pl, None) \<longrightarrow> out = Returned None"
    by simp_all
  have "\<exists>ns. 1 \<le> length ns \<and> length ns \<le> ?k \<and>
          sent (conn r') = sent (conn r) @ blocks_log (block r) B ns \<and>
          block r' = block r + word_of_nat (length ns) \<and>
          buf r' = drop (blockSize * length ns) B \<and>
          (\<forall>i<length ns. length (take blockSize (drop (blockSize * i) B)) = blockSize) \<and>
          (\<forall>n\<in>set (butlast ns). 1 \<le> n) \<and>
          (o' = Returned (int pl, None) \<longrightarrow> length ns = ?k \<and> (\<forall>n\<in>set ns. 1 \<le> n))"
    using one ns(1,3,4) ns(2) full fin'
    by (intro exI [of _ ns]) (simp add: sent_blocks_def)
  with False cnt' show ?thesis
    by (simp add: Write_post_def sb wc)
qed

lemma Write_send_blocks:
  "Write r p =
     (let B = buf r @ (if netASCII r then toNetASCII p else p) in
      if length B < blockSize then (r\<lparr>buf := B\<rparr>, Returned (int (length p), None))
      else with_count (int (length p)) (send_blocks (length B div blockSize) (r\<lparr>buf := B\<rparr>)))"
  by (simp add: Write_def Let_def writeLoop_send_blocks with_count_def)

lemma bufferedSocketResponseWriter_Write_send_blocks:
  "bufferedSocketResponseWriter_Write r p =
     (let B = buf r @ p in
      if length B < blockSize then (r\<lparr>buf := B\<rparr>, Returned (int (length p), None))
      else with_count (int (length p)) (send_blocks (length B div blockSize) (r\<lparr>buf := B\<rparr>)))"
  by (simp add: bufferedSocketResponseWriter_Write_def Let_def writeLoop_send_blocks with_count_def)

lemma Write_post_count:
  "Write_post r B pl (r', out) \<Longrightarrow> case out of Blocked \<Rightarrow> True | Returned (n, err) \<Rightarrow> n = int pl"
  by (simp add: Write_post_def)

lemma newResponse_octet:
  "newResponse (Inr host) (Inr c) ''peer'' ModeOctet = Inr (octet_session c)"
  by (simp add: newResponse_def octet_session_def ModeOctet_def ModeNetASCII_def bytes_of_def)

lemma newResponse_block:
  "newResponse split listen addr mode = Inr r \<Longrightarrow>
     block r = 0 \<and> buf r = [] \<and> length (wb r) = blockSize + 4 \<and> length (rb r) = blockSize + 4 \<and>
     netASCII r = (mode = ModeNetASCII)"
  by (auto simp: newResponse_def split: sum.splits if_splits)

lemma send_two_blocks:
  assumes p: "length p = 1024"
  shows "\<exists>r1. send_blocks 2 ((octet_session acking_conn)\<lparr>buf := p\<rparr>) = (r1, Returned None) \<and>
           block r1 = 2 \<and> buf r1 = [] \<and>
           length (wb r1) = blockSize + 4 \<and> length (rb r1) = blockSize + 4 \<and>
           conn r1 = \<lparr>deadlines = [None], writes = [WriteOk 4], reads = [ReadOk [0, 4, 0, 3]],
                      sent = [DATA 1 (take blockSize p), DATA 2 (drop blockSize p)]\<rparr>"
proof -
  let ?r0 = "(octet_session acking_conn)\<lparr>buf := p\<rparr>"
  have "\<exists>r'. writeOneBlock ?r0 = (r', Returned None) \<and>
           block r' = block ?r0 + 1 \<and> buf r' = drop blockSize (buf ?r0) \<and>
           length (wb r') = length (wb ?r0) \<and> length (rb r') = length (rb ?r0) \<and>
           conn r' = \<lparr>deadlines = [None, None], writes = [WriteOk 516, WriteOk 4],
                      reads = [ReadOk [0, 4, 0, 2], ReadOk [0, 4, 0, 3]],
                      sent = sent (conn ?r0) @ [DATA (block ?r0 + 1) (take blockSize (buf ?r0))]\<rparr> \<and>
           bufferedSocketResponseWriter.more r' = bufferedSocketResponseWriter.more ?r0"
    using p by (intro writeOneBlock_acked [where hi = 0 and lo = 1])
      (simp_all add: octet_session_def acking_conn_def be16_def)
  then obtain ra where a: "writeOneBlock ?r0 = (ra, Returned None)"
    "block ra = 1" "buf ra = drop blockSize p"
    "length (wb ra) = blockSize + 4" "length (rb ra) = blockSize + 4"
    "conn ra = \<lparr>deadlines = [None, None], writes = [WriteOk 516, WriteOk 4],
                reads = [ReadOk [0, 4, 0, 2], ReadOk [0, 4, 0, 3]],
                sent = [DATA 1 (take blockSize p)]\<rparr>"
    by (auto simp: octet_session_def acking_conn_def)
  have "\<exists>r'. writeOneBlock ra = (r', Returned None) \<and>
           block r' = block ra + 1 \<and> buf r' = drop blockSize (buf ra) \<and>
           length (wb r') = length (wb ra) \<and> length (rb r') = length (rb ra) \<and>
           conn r' = \<lparr>deadlines = [None], writes = [WriteOk 4],
                      reads = [ReadOk [0, 4, 0, 3]],
                      sent = sent (conn ra) @ [DATA (block ra + 1) (take blockSize (buf ra))]\<rparr> \<and>
           bufferedSocketResponseWriter.more r' = bufferedSocketResponseWriter.more ra"
    using p a by (intro writeOneBlock_acked [where hi = 0 and lo = 2])
      (simp_all add: be16_def)
  then obtain rb' where b: "writeOneBlock ra = (rb', Returned None)"
    "block rb' = 2" "buf rb' = []"
    "length (wb rb') = blockSize + 4" "length (rb rb') = blockSize + 4"
    "conn rb' = \<lparr>deadlines = [None], writes = [WriteOk 4],
                reads = [ReadOk [0, 4, 0, 3]],
                sent = [DATA 1 (take blockSize p), DATA 2 (drop blockSize p)]\<rparr>"
    using p a by auto
  have "send_blocks 2 ?r0 = (rb', Returned None)"
    using a(1) b(1) by (simp add: numeral_2_eq_2)
  with b show ?thesis by blast
qed

lemma flush_third_block:
  assumes "block r1 = 2" "buf r1 = []" "length (wb r1) = blockSize + 4"
    "length (rb r1) = blockSize + 4"
    "conn r1 = \<lparr>deadlines = [None], writes = [WriteOk 4], reads = [ReadOk [0, 4, 0, 3]],
                sent = log\<rparr>"
  shows "\<exists>r2. Flush r1 = (r2, Returned None) \<and> block r2 = 3 \<and> buf r2 = [] \<and>
           sent (conn r2) = log @ [DATA 3 []]"
proof -
  have "\<exists>r'. writeOneBlock r1 = (r', Returned None) \<and>
           block r' = block r1 + 1 \<and> buf r' = drop blockSize (buf r1) \<and>
           length (wb r') = length (wb r1) \<and> length (rb r') = length (rb r1) \<and>
           conn r' = \<lparr>deadlines = [], writes = [], reads = [],
                      sent = sent (conn r1) @ [DATA (block r1 + 1) (take blockSize (buf r1))]\<rparr> \<and>
           bufferedSocketResponseWriter.more r' = bufferedSocketResponseWriter.more r1"
    using assms by (intro writeOneBlock_acked [where hi = 0 and lo = 3])
      (simp_all add: be16_def)
  then show ?thesis
    using assms by (auto simp: Flush_def)
qed

lemma transfer_1024:
  assumes p: "length p = 1024"
  shows "\<exists>r1 r2. Write (octet_session acking_conn) p = (r1, Returned (1024, None)) \<and>
           Flush r1 = (r2, Returned None) \<and>
           sent (conn r1) = [DATA 1 (take blockSize p), DATA 2 (drop blockSize p)] \<and>
           sent (conn r2) = [DATA 1 (take blockSize p), DATA 2 (drop blockSize p), DATA 3 []] \<and>
           block r2 = 3 \<and> buf r2 = []"
proof -
  from send_two_blocks [OF p] obtain r1 where
    sb: "send_blocks 2 ((octet_session acking_conn)\<lparr>buf := p\<rparr>) = (r1, Returned None)"
    and r1: "block r1 = 2" "buf r1 = []" "length (wb r1) = blockSize + 4"
      "length (rb r1) = blockSize + 4"
      "conn r1 = \<lparr>deadlines = [None], writes = [WriteOk 4], reads = [ReadOk [0, 4, 0, 3]],
                sent = [DATA 1 (take blockSize p), DATA 2 (drop blockSize p)]\<rparr>"
    by blast
  have w: "Write (octet_session acking_conn) p = (r1, Returned (1024, None))"
    using p sb by (simp add: Write_send_blocks with_count_def octet_session_def)
  from flush_third_block [OF r1] obtain r2 where
    "Flush r1 = (r2, Returned None)" "block r2 = 3" "buf r2 = []"
    "sent (conn r2) = [DATA 1 (take blockSize p), DATA 2 (drop blockSize p)] @ [DATA 3 []]"
    by blast
  with w r1(5) show ?thesis by (intro exI [of _ r1] exI [of _ r2]) simp
qed

lemma DATA_empty: "DATA 3 [] = [0, 3, 0, 3]"
  by (simp add: DATA_def)

lemma length_DATA: "length (DATA n payload) = 4 + length payload"
  by (simp add: DATA_def)

lemma block_numbers_distinct:
  "i < j \<Longrightarrow> j < i + 65536 \<Longrightarrow> (b + 1 + word_of_nat i :: uint16) \<noteq> b + 1 + word_of_nat j"
proof
  assume ij: "i < j" "j < i + 65536" and "b + 1 + word_of_nat i = (b + 1 + word_of_nat j :: uint16)"
  then have "(word_of_nat i :: uint16) = word_of_nat j" by simp
  then have "i mod 65536 = j mod 65536"
    by (simp add: word_of_nat_eq_iff take_bit_eq_mod)
  then have "(j - i) mod 65536 = 0"
    using ij by (metis mod_eq_dvd_iff_nat less_imp_le_nat dvd_imp_mod_0)
  moreover have "0 < j - i" "j - i < 65536" using ij by simp_all
  ultimately show False by simp
qed

lemma netASCIIResponseWriter_Write_count:
  "case snd (netASCIIResponseWriter_Write embedded w p) of
     Blocked \<Rightarrow> True | Returned (n, err) \<Rightarrow> n = int (length p)"
  by (simp add: netASCIIResponseWriter_Write_def split: prod.splits outcome.splits)

lemma netASCIIResponseWriter_Write_send_blocks:
  "netASCIIResponseWriter_Write bufferedSocketResponseWriter_Write r p =
     (let B = buf r @ toNetASCII p in
      if length B < blockSize then (r\<lparr>buf := B\<rparr>, Returned (int (length p), None))
      else with_count (int (length p)) (send_blocks (length B div blockSize) (r\<lparr>buf := B\<rparr>)))"
  by (simp add: netASCIIResponseWriter_Write_def bufferedSocketResponseWriter_Write_send_blocks
      netASCII_Replace_eq toNetASCII_Encode_spec Let_def with_count_def
      split: prod.splits outcome.splits)

text \<open>
  C6. \<open>Write\<close> is the specification's: append the input, transcoded in netascii mode,
  to the buffer; with fewer than 512 bytes buffered return the input's length and nil with
  no call on the connection; otherwise run send-one-block \<open>length B div 512\<close> times in
  order, stopping at the first error, and return the input's length with that error or
  nil. Its result meets \<open>Write_post\<close>: the count returned is always the length of the
  input as given, and the blocks sent are full ones, in order. The same holds of the newer
  \<open>netASCIIResponseWriter.Write\<close> over \<open>bufferedSocketResponseWriter.Write\<close>, and
  \<open>netASCIIResponseWriter.Write\<close> returns the input's length over any embedded writer.
\<close>

theorem Write_full_blocks:
  assumes "blockSize + 4 \<le> length (wb r)"
  shows "Write r p =
           (let B = buf r @ (if netASCII r then toNetASCII p else p) in
            if length B < blockSize then (r\<lparr>buf := B\<rparr>, Returned (int (length p), None))
            else with_count (int (length p))
                   (send_blocks (length B div blockSize) (r\<lparr>buf := B\<rparr>))) \<and>
         Write_post r (buf r @ (if netASCII r then toNetASCII p else p)) (length p) (Write r p) \<and>
         Write_post r (buf r @ toNetASCII p) (length p)
           (netASCIIResponseWriter_Write bufferedSocketResponseWriter_Write r p) \<and>
         (case snd (netASCIIResponseWriter_Write embedded w p) of
            Blocked \<Rightarrow> True | Returned (n, err) \<Rightarrow> n = int (length p))"
proof -
  have 1: "Write_post r (buf r @ (if netASCII r then toNetASCII p else p)) (length p) (Write r p)"
    using send_blocks_post [OF assms, of "buf r @ (if netASCII r then toNetASCII p else p)" "length p"]
    by (simp only: Write_send_blocks Let_def)
  have 2: "Write_post r (buf r @ toNetASCII p) (length p)
           (netASCIIResponseWriter_Write bufferedSocketResponseWriter_Write r p)"
    using send_blocks_post [OF assms, of "buf r @ toNetASCII p" "length p"]
    by (simp only: netASCIIResponseWriter_Write_send_blocks Let_def)
  from 1 2 Write_send_blocks [of r p]
    netASCIIResponseWriter_Write_count [where embedded = embedded and w = w and p = p]
  show ?thesis by blast
qed

theorem Write_full_blocks_witness:
  "blockSize + 4 \<le> length (wb (octet_session acking_conn)) \<and>
   Write_post (octet_session acking_conn) (replicate 1024 7) 1024
     (Write (octet_session acking_conn) (replicate 1024 7)) \<and>
   snd (Write (octet_session acking_conn) (replicate 1024 7)) = Returned (1024, None) \<and>
   sent (conn (fst (Write (octet_session acking_conn) (replicate 1024 7)))) =
     [DATA 1 (replicate 512 7), DATA 2 (replicate 512 7)] \<and>
   Write (octet_session acking_conn) (replicate 100 7) =
     ((octet_session acking_conn)\<lparr>buf := replicate 100 7\<rparr>, Returned (100, None))"
proof -
  have h: "blockSize + 4 \<le> length (wb (octet_session acking_conn))"
    by (simp add: octet_session_def)
  have b: "buf (octet_session acking_conn) = []" "\<not> netASCII (octet_session acking_conn)"
    by (simp_all add: octet_session_def)
  from transfer_1024 [of "replicate 1024 7"]
  have e: "snd (Write (octet_session acking_conn) (replicate 1024 7)) = Returned (1024, None) \<and>
     sent (conn (fst (Write (octet_session acking_conn) (replicate 1024 7)))) =
       [DATA 1 (replicate 512 7), DATA 2 (replicate 512 7)]"
    by auto
  have wp: "Write_post (octet_session acking_conn) (replicate 1024 7) 1024
      (Write (octet_session acking_conn) (replicate 1024 7))"
    using Write_full_blocks [OF h, where p = "replicate 1024 7"
        and embedded = captureResponseWriter_Write and w = "[]",
        THEN conjunct2, THEN conjunct1]
    by (simp add: b)
  have small: "Write (octet_session acking_conn) (replicate 100 7) =
      ((octet_session acking_conn)\<lparr>buf := replicate 100 7\<rparr>, Returned (100, None))"
    using Write_full_blocks [OF h, where p = "replicate 100 7"
        and embedded = captureResponseWriter_Write and w = "[]", THEN conjunct1]
    by (simp add: b)
  from h wp e small show ?thesis by blast
qed

lemma Flush_deadline_error:
  assumes len: "blockSize + 4 \<le> length (wb r)"
    and dl: "deadlines (conn r) = Some err # ds"
  shows "Flush r =
           (r\<lparr>block := block r + 1, buf := drop blockSize (buf r),
              wb := DATA (block r + 1) (take blockSize (buf r))
                    @ drop (4 + min blockSize (length (buf r))) (wb r),
              conn := (conn r)\<lparr>deadlines := ds\<rparr>\<rparr>,
            Returned (Some err))"
  unfolding Flush_def writeOneBlock_sendLoop [OF len]
  using dl by (subst sendLoop_deadline_error [where err = err and ds = ds]) simp_all

lemma Flush_empty:
  "\<exists>r'. Flush (octet_session empty_flush_conn) = (r', Returned None) \<and>
         sent (conn r') = [[0, 3, 0, 1]] \<and> block r' = 1 \<and> buf r' = []"
proof -
  let ?r = "octet_session empty_flush_conn"
  have "\<exists>r'. writeOneBlock ?r = (r', Returned None) \<and>
           block r' = block ?r + 1 \<and> buf r' = drop blockSize (buf ?r) \<and>
           length (wb r') = length (wb ?r) \<and> length (rb r') = length (rb ?r) \<and>
           conn r' = \<lparr>deadlines = [], writes = [], reads = [],
                      sent = sent (conn ?r) @ [DATA (block ?r + 1) (take blockSize (buf ?r))]\<rparr> \<and>
           bufferedSocketResponseWriter.more r' = bufferedSocketResponseWriter.more ?r"
    by (intro writeOneBlock_acked [where hi = 0 and lo = 1])
      (simp_all add: octet_session_def empty_flush_conn_def be16_def)
  then show ?thesis
    by (auto simp: Flush_def octet_session_def empty_flush_conn_def DATA_def)
qed

text \<open>
  C7, as the code has it. \<open>Flush\<close> is one send-one-block step: it takes the block
  counter one further, takes up to 512 bytes off the front of the buffer, none when it is
  empty, and enters the send loop with the DATA packet of that block, which is
  \<open>4 + min 512 (length buf)\<close> bytes long. Every datagram the call hands to the connection
  is that packet: no other block is sent. The packet is handed over at least once whenever
  the first \<open>SetDeadline\<close> returns nil, empty buffer or not, and whenever the call
  returns nil. When the first \<open>SetDeadline\<close> returns an error, \<open>Flush\<close> returns that
  error and has sent nothing.
\<close>

theorem Flush_one_block:
  assumes "blockSize + 4 \<le> length (wb r)"
  shows "Flush r =
           sendLoop
             (r\<lparr>block := block r + 1, buf := drop blockSize (buf r),
                wb := DATA (block r + 1) (take blockSize (buf r))
                      @ drop (4 + min blockSize (length (buf r))) (wb r)\<rparr>)
             (min blockSize (length (buf r))) \<and>
         length (DATA (block r + 1) (take blockSize (buf r))) = 4 + min blockSize (length (buf r)) \<and>
         (case Flush r of (r', out) \<Rightarrow>
            block r' = block r + 1 \<and> buf r' = drop blockSize (buf r) \<and>
            (\<exists>n. sent (conn r') =
                   sent (conn r) @ replicate n (DATA (block r + 1) (take blockSize (buf r))) \<and>
                 ((\<exists>ds. deadlines (conn r) = None # ds) \<longrightarrow> 1 \<le> n) \<and>
                 (out = Returned None \<longrightarrow> 1 \<le> n)) \<and>
            (\<forall>err ds. deadlines (conn r) = Some err # ds \<longrightarrow>
               out = Returned (Some err) \<and> sent (conn r') = sent (conn r)))"
proof -
  obtain r' out where f: "writeOneBlock r = (r', out)" by (cases "writeOneBlock r")
  note t = writeOneBlock_transmitted [OF assms f]
  have fl: "Flush r = (r', out)" using f by (simp add: Flush_def)
  have "out = Returned (Some err) \<and> sent (conn r') = sent (conn r)"
    if "deadlines (conn r) = Some err # ds" for err ds
    using Flush_deadline_error [OF assms that] fl by auto
  then have e: "\<forall>err ds. deadlines (conn r) = Some err # ds \<longrightarrow>
      out = Returned (Some err) \<and> sent (conn r') = sent (conn r)"
    by blast
  have "case Flush r of (r', out) \<Rightarrow>
            block r' = block r + 1 \<and> buf r' = drop blockSize (buf r) \<and>
            (\<exists>n. sent (conn r') =
                   sent (conn r) @ replicate n (DATA (block r + 1) (take blockSize (buf r))) \<and>
                 ((\<exists>ds. deadlines (conn r) = None # ds) \<longrightarrow> 1 \<le> n) \<and>
                 (out = Returned None \<longrightarrow> 1 \<le> n)) \<and>
            (\<forall>err ds. deadlines (conn r) = Some err # ds \<longrightarrow>
               out = Returned (Some err) \<and> sent (conn r') = sent (conn r))"
    unfolding fl using t(1,2,3) e by simp
  moreover have "Flush r =
           sendLoop
             (r\<lparr>block := block r + 1, buf := drop blockSize (buf r),
                wb := DATA (block r + 1) (take blockSize (buf r))
                      @ drop (4 + min blockSize (length (buf r))) (wb r)\<rparr>)
             (min blockSize (length (buf r)))"
    unfolding Flush_def by (rule writeOneBlock_sendLoop [OF assms])
  moreover have "length (DATA (block r + 1) (take blockSize (buf r))) =
      4 + min blockSize (length (buf r))"
    by (simp add: length_DATA min.commute)
  ultimately show ?thesis by blast
qed

theorem Flush_one_block_witness:
  "blockSize + 4 \<le> length (wb (octet_session empty_flush_conn)) \<and>
   snd (Flush (octet_session empty_flush_conn)) = Returned None \<and>
   sent (conn (fst (Flush (octet_session empty_flush_conn)))) = [[0, 3, 0, 1]] \<and>
   block (fst (Flush (octet_session empty_flush_conn))) = 1 \<and>
   length (DATA 1 []) = 4"
proof -
  have h: "blockSize + 4 \<le> length (wb (octet_session empty_flush_conn))"
    by (simp add: octet_session_def)
  from Flush_empty obtain r' where
    "Flush (octet_session empty_flush_conn) = (r', Returned None)"
    "sent (conn r') = [[0, 3, 0, 1]]" "block r' = 1" by blast
  then have e: "snd (Flush (octet_session empty_flush_conn)) = Returned None"
    "sent (conn (fst (Flush (octet_session empty_flush_conn)))) = [[0, 3, 0, 1]]"
    "block (fst (Flush (octet_session empty_flush_conn))) = 1"
    by simp_all
  have "length (DATA (block (octet_session empty_flush_conn) + 1)
          (take blockSize (buf (octet_session empty_flush_conn)))) =
        4 + min blockSize (length (buf (octet_session empty_flush_conn)))"
    using Flush_one_block [OF h, THEN conjunct2, THEN conjunct1] .
  then have "length (DATA 1 []) = 4"
    by (simp add: octet_session_def)
  with h e show ?thesis by simp
qed

text \<open>
  C7 as stated fails: on a connection whose first \<open>SetDeadline\<close> returns an error,
  \<open>Flush\<close> returns that error with nothing handed to the connection, the block counter
  advanced and the buffered bytes taken, with an empty buffer and with three bytes
  buffered.
\<close>

theorem Flush_deadline_error_counterexample:
  "snd (Flush (octet_session refusing_conn)) = Returned (Some (OtherError 0)) \<and>
   sent (conn (fst (Flush (octet_session refusing_conn)))) = [] \<and>
   block (fst (Flush (octet_session refusing_conn))) = 1 \<and>
   snd (Flush ((octet_session refusing_conn)\<lparr>buf := [97, 98, 99]\<rparr>)) =
     Returned (Some (OtherError 0)) \<and>
   sent (conn (fst (Flush ((octet_session refusing_conn)\<lparr>buf := [97, 98, 99]\<rparr>)))) = [] \<and>
   buf (fst (Flush ((octet_session refusing_conn)\<lparr>buf := [97, 98, 99]\<rparr>))) = []"
proof -
  have 1: "blockSize + 4 \<le> length (wb (octet_session refusing_conn))"
    "deadlines (conn (octet_session refusing_conn)) = Some (OtherError 0) # []"
    by (simp_all add: octet_session_def refusing_conn_def)
  have 2: "blockSize + 4 \<le> length (wb ((octet_session refusing_conn)\<lparr>buf := [97, 98, 99]\<rparr>))"
    "deadlines (conn ((octet_session refusing_conn)\<lparr>buf := [97, 98, 99]\<rparr>)) =
       Some (OtherError 0) # []"
    by (simp_all add: octet_session_def refusing_conn_def)
  show ?thesis
    unfolding Flush_deadline_error [OF 1] Flush_deadline_error [OF 2]
    by (simp add: octet_session_def refusing_conn_def)
qed

lemma send_blocks_numbers:
  assumes "blockSize + 4 \<le> length (wb r)"
  shows "case send_blocks k r of (r', out) \<Rightarrow>
           \<exists>ns. length ns \<le> k \<and> block r' = block r + word_of_nat (length ns) \<and>
                sent (conn r') = sent (conn r) @ blocks_log (block r) (buf r) ns"
proof -
  obtain r' out where sb: "send_blocks k r = (r', out)" by (cases "send_blocks k r")
  from send_blocks_log [OF assms sb]
  obtain ns where "length ns \<le> k" "sent_blocks r r' ns" by blast
  then show ?thesis
    unfolding sb by (auto simp: sent_blocks_def)
qed

lemma writeOneBlock_number:
  assumes "blockSize + 4 \<le> length (wb r)"
  shows "case writeOneBlock r of (r', out) \<Rightarrow>
           block r' = block r + 1 \<and>
           (\<exists>n. sent (conn r') =
                  sent (conn r) @ replicate n (DATA (block r + 1) (take blockSize (buf r))))"
proof -
  obtain r' out where w: "writeOneBlock r = (r', out)" by (cases "writeOneBlock r")
  from writeOneBlock_transmitted(1,2) [OF assms w] show ?thesis
    unfolding w by auto
qed

lemma newResponse_block_zero:
  "case newResponse (Inr host) (Inr c) addr mode of Inl err \<Rightarrow> False | Inr r \<Rightarrow> block r = 0"
  by (simp add: newResponse_def)

lemma transfer_1024_newResponse:
  assumes "length p = 1024"
  shows "\<exists>r0 r1 r2. newResponse (Inr host) (Inr acking_conn) ''peer'' ModeOctet = Inr r0 \<and>
           Write r0 p = (r1, Returned (1024, None)) \<and>
           Flush r1 = (r2, Returned None) \<and>
           sent (conn r2) = [DATA 1 (take blockSize p), DATA 2 (drop blockSize p), DATA 3 []] \<and>
           DATA 3 [] = [0, 3, 0, 3] \<and> block r2 = 3"
  using transfer_1024 [OF assms] newResponse_octet [of host acking_conn] DATA_empty
  by blast

text \<open>
  C8. \<open>newResponse\<close> leaves the block counter at 0. Every \<open>writeOneBlock\<close> adds one
  to it, in 16-bit arithmetic (65535 + 1 = 0), and every datagram of that call carries the
  new number; successive calls send blocks with successive numbers, so two blocks less
  than 65536 apart never share a number, and a number is repeated only in the
  retransmissions of one block. A session in octet mode that writes 1024 bytes and then
  flushes, each block being acknowledged, sends block 1 with the first 512 bytes, block 2
  with the last 512 and block 3 with no payload.
\<close>

theorem block_numbers:
  "(case newResponse (Inr host) (Inr c) addr mode of
      Inl err \<Rightarrow> False | Inr r0 \<Rightarrow> block r0 = 0) \<and>
   (blockSize + 4 \<le> length (wb r) \<longrightarrow>
      (case writeOneBlock r of (r', out) \<Rightarrow>
         block r' = block r + 1 \<and>
         (\<exists>n. sent (conn r') =
                sent (conn r) @ replicate n (DATA (block r + 1) (take blockSize (buf r))))) \<and>
      (case send_blocks k r of (r', out) \<Rightarrow>
         \<exists>ns. length ns \<le> k \<and> block r' = block r + word_of_nat (length ns) \<and>
              sent (conn r') = sent (conn r) @ blocks_log (block r) (buf r) ns)) \<and>
   (\<forall>i j. i < j \<and> j < i + 65536 \<longrightarrow>
      (b + 1 + word_of_nat i :: uint16) \<noteq> b + 1 + word_of_nat j) \<and>
   (65535 :: uint16) + 1 = 0 \<and>
   (length p = 1024 \<longrightarrow>
      (\<exists>r0 r1 r2. newResponse (Inr host) (Inr acking_conn) ''peer'' ModeOctet = Inr r0 \<and>
         Write r0 p = (r1, Returned (1024, None)) \<and>
         Flush r1 = (r2, Returned None) \<and>
         sent (conn r2) = [DATA 1 (take blockSize p), DATA 2 (drop blockSize p), DATA 3 []] \<and>
         DATA 3 [] = [0, 3, 0, 3] \<and> block r2 = 3))"
proof -
  have w: "(65535 :: uint16) + 1 = 0" by simp
  have d: "\<forall>i j. i < j \<and> j < i + 65536 \<longrightarrow>
      (b + 1 + word_of_nat i :: uint16) \<noteq> b + 1 + word_of_nat j"
    using block_numbers_distinct by blast
  have n: "blockSize + 4 \<le> length (wb r) \<longrightarrow>
      (case writeOneBlock r of (r', out) \<Rightarrow>
         block r' = block r + 1 \<and>
         (\<exists>n. sent (conn r') =
                sent (conn r) @ replicate n (DATA (block r + 1) (take blockSize (buf r))))) \<and>
      (case send_blocks k r of (r', out) \<Rightarrow>
         \<exists>ns. length ns \<le> k \<and> block r' = block r + word_of_nat (length ns) \<and>
              sent (conn r') = sent (conn r) @ blocks_log (block r) (buf r) ns)"
    using writeOneBlock_number [of r] send_blocks_numbers [of r k]
    by (intro impI conjI)
  have t: "length p = 1024 \<longrightarrow>
      (\<exists>r0 r1 r2. newResponse (Inr host) (Inr acking_conn) ''peer'' ModeOctet = Inr r0 \<and>
         Write r0 p = (r1, Returned (1024, None)) \<and>
         Flush r1 = (r2, Returned None) \<and>
         sent (conn r2) = [DATA 1 (take blockSize p), DATA 2 (drop blockSize p), DATA 3 []] \<and>
         DATA 3 [] = [0, 3, 0, 3] \<and> block r2 = 3)"
    using transfer_1024_newResponse [of p host] by (rule impI)
  note z = newResponse_block_zero [of host c addr mode]
  show ?thesis
    by (rule conjI [OF z conjI [OF n conjI [OF d conjI [OF w t]]]])
qed

theorem block_numbers_witness:
  "blockSize + 4 \<le> length (wb (octet_session acking_conn)) \<and>
   length (replicate 1024 (7 :: byte)) = 1024 \<and>
   (\<exists>r0 r1 r2. newResponse (Inr ''localhost'') (Inr acking_conn) ''peer'' ModeOctet = Inr r0 \<and>
      Write r0 (replicate 1024 7) = (r1, Returned (1024, None)) \<and>
      Flush r1 = (r2, Returned None) \<and>
      sent (conn r2) =
        [[0, 3, 0, 1] @ replicate 512 7, [0, 3, 0, 2] @ replicate 512 7, [0, 3, 0, 3]] \<and>
      block r2 = 3) \<and>
   (case writeOneBlock (octet_session acking_conn) of (r', out) \<Rightarrow> block r' = 1)"
proof -
  have h: "blockSize + 4 \<le> length (wb (octet_session acking_conn))"
    by (simp add: octet_session_def)
  have l: "length (replicate 1024 (7 :: byte)) = 1024" by simp
  note T = block_numbers [where r = "octet_session acking_conn" and p = "replicate 1024 7"
      and host = "''localhost''" and c = acking_conn and addr = "''peer''" and mode = ModeOctet
      and k = 0 and b = 0]
  have s: "\<exists>r0 r1 r2. newResponse (Inr ''localhost'') (Inr acking_conn) ''peer'' ModeOctet = Inr r0 \<and>
      Write r0 (replicate 1024 7) = (r1, Returned (1024, None)) \<and>
      Flush r1 = (r2, Returned None) \<and>
      sent (conn r2) =
        [DATA 1 (take blockSize (replicate 1024 7)), DATA 2 (drop blockSize (replicate 1024 7)),
         DATA 3 []] \<and>
      DATA 3 [] = [0, 3, 0, 3] \<and> block r2 = 3"
    by (rule T [THEN conjunct2, THEN conjunct2, THEN conjunct2, THEN conjunct2, THEN mp, OF l])
  have d: "DATA 1 (take blockSize (replicate 1024 7)) = [0, 3, 0, 1] @ replicate 512 7"
    "DATA 2 (drop blockSize (replicate 1024 7)) = [0, 3, 0, 2] @ replicate 512 7"
    "DATA 3 [] = [0, 3, 0, 3]"
    by (simp_all add: DATA_def)
  have b: "case writeOneBlock (octet_session acking_conn) of (r', out) \<Rightarrow> block r' = 1"
    using T [THEN conjunct2, THEN conjunct1, THEN mp, OF h, THEN conjunct1]
    by (simp add: octet_session_def split: prod.splits)
  from s have s': "\<exists>r0 r1 r2.
      newResponse (Inr ''localhost'') (Inr acking_conn) ''peer'' ModeOctet = Inr r0 \<and>
      Write r0 (replicate 1024 7) = (r1, Returned (1024, None)) \<and>
      Flush r1 = (r2, Returned None) \<and>
      sent (conn r2) =
        [[0, 3, 0, 1] @ replicate 512 7, [0, 3, 0, 2] @ replicate 512 7, [0, 3, 0, 3]] \<and>
      block r2 = 3"
    unfolding d by (elim exE conjE, intro exI conjI)
  show ?thesis
    by (rule conjI [OF h conjI [OF l conjI [OF s' b]]])
qed

end
